theory Spec2Isabelle
  imports Main "HOL-Library.Word"
begin

section \<open>Characters, C strings and pointers\<close>

text \<open>
  The registry importer (programs/reg/import.c) works on NUL-terminated arrays of
  16-bit WCHARs, through pointers that only ever move forward.  A pointer is modelled
  by the memory it points to: the list of the units from the pointer on.  Reading past
  the end of the list yields 0, so the end of the list is a terminator of its own; a
  list may also hold an explicit 0 (a terminator written in the middle of a buffer),
  and every C string function below stops at the first one, as the C code does.
  Advancing a pointer is \<open>tl\<close> or \<open>drop\<close>.
\<close>

type_synonym byte = "8 word"
type_synonym wchar = "16 word"
type_synonym dword = "32 word"
type_synonym wstr = "wchar list"

definition wc :: "char \<Rightarrow> wchar" where
  "wc c = of_char c"

definition wide :: "string \<Rightarrow> wstr" where
  "wide s = map wc s"

fun deref :: "'a::len word list \<Rightarrow> 'a word" where
  "deref [] = 0"
| "deref (c # cs) = c"

definition cstr :: "'a::len word list \<Rightarrow> 'a word list" where
  "cstr s = takeWhile (\<lambda>c. c \<noteq> 0) s"

text \<open>Modelled from the spec: strlenW / lstrlenW / strlen (wine/unicode.h and the C
  library, not under src/): the number of units before the first NUL.\<close>

fun strlen :: "'a::len word list \<Rightarrow> nat" where
  "strlen [] = 0"
| "strlen (c # cs) = (if c = 0 then 0 else Suc (strlen cs))"

text \<open>Modelled from the spec: strcmpW (wine/unicode.h, not under src/), the exact
  comparison of two NUL-terminated strings:
  \<^verbatim>\<open>while (*str1 && (*str1 == *str2)) { str1++; str2++; } return *str1 - *str2;\<close>\<close>

fun strcmpW :: "wstr \<Rightarrow> wstr \<Rightarrow> int" where
  "strcmpW [] s2 = 0 - uint (deref s2)"
| "strcmpW (c # s1) s2 =
     (if c \<noteq> 0 \<and> c = deref s2 then strcmpW s1 (tl s2) else uint c - uint (deref s2))"

text \<open>Modelled from the spec: strncmpW (wine/unicode.h, not under src/), the
  comparison of at most n units:
  \<^verbatim>\<open>if (n <= 0) return 0;
  while ((--n > 0) && *str1 && (*str1 == *str2)) { str1++; str2++; }
  return *str1 - *str2;\<close>\<close>

fun strncmpW :: "wstr \<Rightarrow> wstr \<Rightarrow> nat \<Rightarrow> int" where
  "strncmpW s1 s2 0 = 0"
| "strncmpW s1 s2 (Suc n) =
     (if 0 < n \<and> deref s1 \<noteq> 0 \<and> deref s1 = deref s2 then strncmpW (tl s1) (tl s2) n
      else uint (deref s1) - uint (deref s2))"

text \<open>The idiom \<^verbatim>\<open>while (*s == ' ' || *s == '\t') s++;\<close>\<close>

definition is_blank :: "wchar \<Rightarrow> bool" where
  "is_blank c = (c = wc CHR '' '' \<or> c = wc CHR 0x09)"

fun skip_blanks :: "wstr \<Rightarrow> wstr" where
  "skip_blanks [] = []"
| "skip_blanks (c # cs) = (if is_blank c then skip_blanks cs else c # cs)"

section \<open>The header classifier\<close>

datatype reg_versions =
  REG_VERSION_31 | REG_VERSION_40 | REG_VERSION_50 | REG_VERSION_FUZZY | REG_VERSION_INVALID

definition header_31 :: wstr where
  "header_31 = wide ''REGEDIT''"

definition header_40 :: wstr where
  "header_40 = wide ''REGEDIT4''"

definition header_50 :: wstr where
  "header_50 = wide ''Windows Registry Editor Version 5.00''"

definition parse_file_header :: "wstr \<Rightarrow> reg_versions" where
  "parse_file_header s0 =
     (let s = skip_blanks s0 in
      if strcmpW s header_31 = 0 then REG_VERSION_31
      else if strcmpW s header_40 = 0 then REG_VERSION_40
      else if strcmpW s header_50 = 0 then REG_VERSION_50
      else if strncmpW s header_31 7 = 0 then REG_VERSION_FUZZY
      else REG_VERSION_INVALID)"

section \<open>Library functions used by the value decoders\<close>

text \<open>Modelled from the spec: isspaceW, isxdigitW and tolowerW (wine/unicode.h, not
  under src/; they read character tables of libwine): white space, the hexadecimal digits
  0-9, a-f, A-F, and the lower-case mapping, given here on the ASCII range.\<close>

definition isspaceW :: "wchar \<Rightarrow> bool" where
  "isspaceW c = (c = 32 \<or> (9 \<le> c \<and> c \<le> 13))"

definition isxdigitW :: "wchar \<Rightarrow> bool" where
  "isxdigitW c = ((48 \<le> c \<and> c \<le> 57) \<or> (97 \<le> c \<and> c \<le> 102) \<or> (65 \<le> c \<and> c \<le> 70))"

definition tolowerW :: "wchar \<Rightarrow> wchar" where
  "tolowerW c = (if 65 \<le> c \<and> c \<le> 90 then c + 32 else c)"

definition xdigit_val :: "wchar \<Rightarrow> nat" where
  "xdigit_val c =
     (if 48 \<le> c \<and> c \<le> 57 then unat c - 48
      else if 97 \<le> c \<and> c \<le> 102 then unat c - 87
      else unat c - 55)"

fun hex_value :: "nat \<Rightarrow> wstr \<Rightarrow> nat" where
  "hex_value acc [] = acc"
| "hex_value acc (c # cs) = hex_value (acc * 16 + xdigit_val c) cs"

text \<open>Modelled from the spec: wcstoul and strtoulW with base 16 (msvcrt and libwine, not
  under src/), as the C standard describes strtoul: leading white space, an optional sign
  and an optional 0x prefix are skipped, then the hexadecimal digits are converted; the
  pointer \<open>end\<close> is left on the first unit that is not converted (on the start of the
  string when there is no digit); a value that does not fit 32 bits gives 0xffffffff and
  sets errno to ERANGE (the third component).\<close>

definition wcstoul :: "wstr \<Rightarrow> dword \<times> wstr \<times> bool" where
  "wcstoul s =
     (let s1 = dropWhile isspaceW s;
          neg = (deref s1 = wc CHR ''-'');
          s2 = (if deref s1 = wc CHR ''-'' \<or> deref s1 = wc CHR ''+'' then tl s1 else s1);
          s3 = (if deref s2 = wc CHR ''0'' \<and> tolowerW (deref (tl s2)) = wc CHR ''x''
                    \<and> isxdigitW (deref (drop 2 s2))
                then drop 2 s2 else s2);
          ds = takeWhile isxdigitW s3;
          v = hex_value 0 ds
      in if ds = [] then (0, s, False)
         else if 2 ^ 32 \<le> v then (0xffffffff, drop (length ds) s3, True)
         else (if neg then - of_nat v else of_nat v, drop (length ds) s3, False))"

text \<open>Modelled from the spec: strchrW, strrchrW and strpbrk / strpbrkW (wine/unicode.h
  and the C library, not under src/): the first occurrence of a unit, the index of its
  last occurrence, and the index of the first unit that belongs to a set, all within the
  NUL-terminated string.\<close>

fun strchrW :: "wstr \<Rightarrow> wchar \<Rightarrow> wstr option" where
  "strchrW [] ch = (if ch = 0 then Some [] else None)"
| "strchrW (c # cs) ch =
     (if c = ch then Some (c # cs) else if c = 0 then None else strchrW cs ch)"

fun strrchrW_from :: "wstr \<Rightarrow> wchar \<Rightarrow> nat \<Rightarrow> nat option \<Rightarrow> nat option" where
  "strrchrW_from [] ch i ret = (if ch = 0 then Some i else ret)"
| "strrchrW_from (c # cs) ch i ret =
     (let ret' = (if c = ch then Some i else ret)
      in if c = 0 then ret' else strrchrW_from cs ch (Suc i) ret')"

definition strrchrW :: "wstr \<Rightarrow> wchar \<Rightarrow> nat option" where
  "strrchrW s ch = strrchrW_from s ch 0 None"

fun strpbrk :: "'a::len word list \<Rightarrow> 'a word list \<Rightarrow> nat option" where
  "strpbrk [] accept = None"
| "strpbrk (c # cs) accept =
     (if c = 0 then None
      else if c \<in> set accept then Some 0
      else map_option Suc (strpbrk cs accept))"

section \<open>The value decoders\<close>

subsection \<open>convert\_hex\_to\_dword\<close>

text \<open>
  The function writes a terminator over the unit after the digits and converts the
  digits; the result is \<open>None\<close> for FALSE and the DWORD stored through \<open>dw\<close> for TRUE.
\<close>

definition convert_hex_to_dword :: "wstr \<Rightarrow> dword option" where
  "convert_hex_to_dword str0 =
     (let str = skip_blanks str0 in
      if deref str = 0 then None
      else
        let count = length (takeWhile isxdigitW str);
            p = drop count str
        in if 8 < count then None
           else
             let p' = skip_blanks p in
             if deref p' \<noteq> 0 \<and> deref p' \<noteq> wc CHR '';'' then None
             else Some (fst (wcstoul (take count str))))"

subsection \<open>unescape\_string\<close>

text \<open>
  The loop works in place on \<open>str\<close> with the two indices of the source.  The first
  component of the result is True for the early \<^verbatim>\<open>return FALSE\<close> inside the loop (a
  backslash before the terminator); the last one lists the characters reported through
  \<^verbatim>\<open>output_message(STRING_ESCAPE_SEQUENCE, ...)\<close>.
\<close>

definition at :: "'a::len word list \<Rightarrow> nat \<Rightarrow> 'a word" where
  "at s i = (if i < length s then s ! i else 0)"

function unescape_loop ::
  "wstr \<Rightarrow> nat \<Rightarrow> nat \<Rightarrow> nat \<Rightarrow> wchar list \<Rightarrow> bool \<times> wstr \<times> nat \<times> nat \<times> wchar list" where
  "unescape_loop str len str_idx val_idx msgs =
     (if str_idx < len then
        if at str str_idx = wc CHR 0x5C then
          let c = at str (str_idx + 1) in
          if c = wc CHR ''n'' then
            unescape_loop (str[val_idx := 10]) len (str_idx + 2) (val_idx + 1) msgs
          else if c = wc CHR ''r'' then
            unescape_loop (str[val_idx := 13]) len (str_idx + 2) (val_idx + 1) msgs
          else if c = wc CHR ''0'' then
            unescape_loop (str[val_idx := 0]) len (str_idx + 2) (val_idx + 1) msgs
          else if c = wc CHR 0x5C \<or> c = wc CHR 0x22 then
            unescape_loop (str[val_idx := c]) len (str_idx + 2) (val_idx + 1) msgs
          else if c = 0 then (True, str, str_idx + 1, val_idx, msgs)
          else unescape_loop (str[val_idx := c]) len (str_idx + 2) (val_idx + 1) (msgs @ [c])
        else if at str str_idx = wc CHR 0x22 then (False, str, str_idx, val_idx, msgs)
        else unescape_loop (str[val_idx := at str str_idx]) len (str_idx + 1) (val_idx + 1) msgs
      else (False, str, str_idx, val_idx, msgs))"
  by pat_completeness auto
termination
  by (relation "measure (\<lambda>(str, len, str_idx, val_idx, msgs). len - str_idx)") auto

declare unescape_loop.simps [simp del]

text \<open>
  The result of unescape\_string: the returned BOOL, the buffer \<open>str\<close> as the call leaves
  it, the pointer stored through \<open>unparsed\<close> (\<open>None\<close> when the function returns before
  the assignment) and the reported characters.
\<close>

definition unescape_string :: "wstr \<Rightarrow> bool \<times> wstr \<times> wstr option \<times> wchar list" where
  "unescape_string str =
     (case unescape_loop str (strlen str) 0 0 [] of
        (early, str', str_idx, val_idx, msgs) \<Rightarrow>
          if early then (False, str', None, msgs)
          else (at str' str_idx = wc CHR 0x22,
                str'[val_idx := 0],
                Some (drop (str_idx + 1) (str'[val_idx := 0])),
                msgs))"

section \<open>The parser context and its surroundings\<close>

datatype parser_state =
  HEADER | PARSE_WIN31_LINE | LINE_START | KEY_NAME | DEFAULT_VALUE_NAME | QUOTED_VALUE_NAME
  | DATA_START | DATA_TYPE | STRING_DATA | DWORD_DATA | SET_VALUE

type_synonym hkey = nat

text \<open>
  What the importer does to the outside, in the order it does it: the calls to the
  registry (RegCreateKeyExW with its result, an error code or the new handle;
  RegCloseKey; RegSetValueExW with the handle, the value name, the type and the
  \<open>data_size\<close> bytes read from \<open>data\<close>), the messages of output\_message and the FIXME
  traces.  A NULL handle or name is \<open>None\<close>; the file name that goes with
  STRING\_FILE\_NOT\_FOUND is left out.
\<close>

datatype message =
  STRING_FILE_NOT_FOUND | STRING_OPEN_KEY_FAILED wstr | STRING_ESCAPE_SEQUENCE wchar

datatype event =
  CreateKey hkey "wstr option" "nat + hkey"
  | CloseKey hkey
  | SetValue "hkey option" "wstr option" dword "byte list"
  | Message message
  | Fixme string

text \<open>
  The functions the importer calls and this file does not define: path\_get\_rootkey
  (reg.c; 0 is \<open>None\<close>), RegCreateKeyExW (its answer may depend on everything done so
  far) and MultiByteToWideChar for the code page CP\_ACP, applied to a NUL-terminated
  byte string.  \<open>uninit_line\<close> is the indeterminate value of the local variable
  \<open>line\<close> of string\_data\_state, which the function returns when unescape\_string has
  left without assigning it; \<open>buffer_behind\<close> is what the buffer of get\_lineW holds
  behind \<open>buf[len]\<close> when the text before \<open>buf[len]\<close> is the argument (what earlier
  lines and the handlers have left there, or memory of the heap that was never written);
  \<open>errno_at_start\<close> tells whether errno is ERANGE when the import begins.
\<close>

record env =
  path_get_rootkey :: "wstr \<Rightarrow> hkey option"
  RegCreateKeyExW :: "event list \<Rightarrow> hkey \<Rightarrow> wstr option \<Rightarrow> nat + hkey"
  MultiByteToWideChar :: "byte list \<Rightarrow> wstr"
  uninit_line :: "wstr option"
  buffer_behind :: "wstr \<Rightarrow> wstr"
  errno_at_start :: bool

text \<open>
  \<open>data\<close> points into the current line (string data, and the value of a Windows 3.1
  line) or to the four bytes that dword\_data\_state allocates (\<open>None\<close> until they are
  written).
\<close>

datatype data_ptr = NullData | LineData wstr | HeapDword "dword option"

text \<open>
  struct parser, followed by the state outside of it that the handlers reach: the unread
  rest of the stream behind \<open>file\<close> (\<open>file_rest\<close>), the static variables \<open>size\<close> and \<open>next\<close> of
  get\_lineA and of get\_lineW (\<open>next\<close> is NULL or the contents of the buffer from
  \<open>next\<close> up to its terminator; what lies behind the terminator is read in one case
  only, for which there is \<open>buffer_behind\<close>), errno, and the trace of events.  reg\_version is \<open>None\<close> for the initial -1.  Sizes, lengths and
  indices are natural numbers: a line is taken to be shorter than the 2 ^ 31 units at which
  \<open>int\<close> and DWORD would wrap.
\<close>

record parser =
  file_rest :: "byte list"
  two_wchars :: wstr
  is_unicode :: bool
  reg_version :: "reg_versions option"
  hkey :: "hkey option"
  key_name :: "wstr option"
  value_name :: "wstr option"
  parse_type :: dword
  data_type :: dword
  data :: data_ptr
  data_size :: nat
  state :: parser_state
  sizeA :: nat
  nextA :: "byte list option"
  sizeW :: nat
  nextW :: "wstr option"
  errno_ERANGE :: bool
  trace :: "event list"

text \<open>The registry type codes of winnt.h that the importer uses.\<close>

definition REG_SZ :: dword where "REG_SZ = 1"
definition REG_BINARY :: dword where "REG_BINARY = 3"
definition REG_DWORD :: dword where "REG_DWORD = 4"

definition set_state :: "parser \<Rightarrow> parser_state \<Rightarrow> parser" where
  "set_state ps st = ps\<lparr>state := st\<rparr>"

definition emit :: "event \<Rightarrow> parser \<Rightarrow> parser" where
  "emit ev ps = ps\<lparr>trace := trace ps @ [ev]\<rparr>"

section \<open>The line source\<close>

definition REG_VAL_BUF_SIZE :: nat where
  "REG_VAL_BUF_SIZE = 4096"

definition CR :: "'a::len word" where "CR = 13"
definition LF :: "'a::len word" where "LF = 10"

text \<open>The units that \<^verbatim>\<open>fread(buf + len, sizeof(WCHAR), n, fp)\<close> stores: whole
  little-endian pairs of bytes.\<close>

fun wchars_of :: "byte list \<Rightarrow> wstr" where
  "wchars_of (lo # hi # bs) = (ucast lo + 256 * ucast hi) # wchars_of bs"
| "wchars_of bs = []"

text \<open>
  The loop \<^verbatim>\<open>while (next)\<close> of get\_lineA, entered with \<open>next\<close> not NULL (and \<open>line\<close>
  equal to \<open>next\<close>, as it is on every iteration).  The result is the line returned (a
  pointer into the buffer, with the terminator written over the line ending, or the
  buffer itself at the end of the stream) and the new \<open>size\<close>, \<open>next\<close> and stream.
  \<open>sz - len\<close> (size - len) is the subtraction of two size\_t values; \<open>len < size\<close> holds
  throughout, so it never wraps.
\<close>

function get_lineA_loop ::
  "nat \<Rightarrow> byte list \<Rightarrow> byte list \<Rightarrow> byte list \<times> nat \<times> byte list option \<times> byte list" where
  "get_lineA_loop sz nxt fp =
     (case strpbrk nxt [CR, LF] of
        None \<Rightarrow>
          (let len = strlen nxt;
               sz' = (if sz - len < 3 then sz * 2 else sz);
               count = min (sz' - len - 1) (length fp)
           in if count = 0 then (take len nxt, sz', None, fp)
              else get_lineA_loop sz' (take len nxt @ take count fp) (drop count fp))
      | Some p \<Rightarrow>
          (take p nxt, sz,
           Some (if at nxt p = CR \<and> at nxt (p + 1) = LF then drop (p + 2) nxt
                 else drop (p + 1) nxt),
           fp))"
  by pat_completeness auto
termination
  by (relation "measure (\<lambda>(sz, nxt, fp). length fp)") auto

declare get_lineA_loop.simps [simp del]

text \<open>
  The same loop in get\_lineW.  \<^verbatim>\<open>fread(buf + len, sizeof(WCHAR), size - len - 1, fp)\<close>
  takes up to 2 * (size - len - 1) bytes from the stream (\<open>got\<close>) and returns the number
  of whole units among them.  When it returns 0 after taking the one byte that was left, that
  byte has been stored over the low half of the terminator at \<open>buf[len]\<close>, and the buffer
  returned runs on into what lies behind it.  When it returns a positive count, a lone last
  byte is overwritten by the new terminator.
\<close>

function get_lineW_loop ::
  "env \<Rightarrow> nat \<Rightarrow> wstr \<Rightarrow> byte list \<Rightarrow> wstr \<times> nat \<times> wstr option \<times> byte list" where
  "get_lineW_loop e sz nxt fp =
     (case strpbrk nxt [CR, LF] of
        None \<Rightarrow>
          (let len = strlen nxt;
               sz' = (if sz - len < 3 then sz * 2 else sz);
               got = take (2 * (sz' - len - 1)) fp;
               count = length got div 2
           in if count = 0 then
                if got = [] then (take len nxt, sz', None, fp)
                else (take len nxt @ ucast (hd got) # buffer_behind e (take len nxt), sz', None,
                      drop (length got) fp)
              else get_lineW_loop e sz' (take len nxt @ wchars_of got) (drop (length got) fp))
      | Some p \<Rightarrow>
          (take p nxt, sz,
           Some (if at nxt p = CR \<and> at nxt (p + 1) = LF then drop (p + 2) nxt
                 else drop (p + 1) nxt),
           fp))"
  by pat_completeness auto
termination
  by (relation "measure (\<lambda>(e, sz, nxt, fp). length fp)") auto

declare get_lineW_loop.simps [simp del]

definition GetWideString :: "env \<Rightarrow> byte list \<Rightarrow> wstr" where
  "GetWideString e strA = MultiByteToWideChar e (cstr strA)"

text \<open>get\_lineA(fp) and get\_lineW(fp) for a stream; \<open>None\<close> is the NULL result.\<close>

definition get_lineA :: "env \<Rightarrow> parser \<Rightarrow> wstr option \<times> parser" where
  "get_lineA e ps0 =
     (let ps = (if sizeA ps0 = 0 then ps0\<lparr>sizeA := REG_VAL_BUF_SIZE, nextA := Some []\<rparr>
                else ps0)
      in case nextA ps of
           None \<Rightarrow> (None, ps\<lparr>sizeA := 0\<rparr>)
         | Some nxt \<Rightarrow>
             (case get_lineA_loop (sizeA ps) nxt (file_rest ps) of
                (line, sz', next', fp') \<Rightarrow>
                  (Some (GetWideString e line),
                   ps\<lparr>sizeA := sz', nextA := next', file_rest := fp'\<rparr>)))"

definition get_lineW :: "env \<Rightarrow> parser \<Rightarrow> wstr option \<times> parser" where
  "get_lineW e ps0 =
     (let ps = (if sizeW ps0 = 0 then ps0\<lparr>sizeW := REG_VAL_BUF_SIZE, nextW := Some []\<rparr>
                else ps0)
      in case nextW ps of
           None \<Rightarrow> (None, ps\<lparr>sizeW := 0\<rparr>)
         | Some nxt \<Rightarrow>
             (case get_lineW_loop e (sizeW ps) nxt (file_rest ps) of
                (line, sz', next', fp') \<Rightarrow>
                  (Some line, ps\<lparr>sizeW := sz', nextW := next', file_rest := fp'\<rparr>)))"

text \<open>The function pointer \<open>get_line\<close>, set from \<open>is_unicode\<close> by reg\_import, and
  the call \<^verbatim>\<open>get_line(NULL)\<close> that releases the buffer.\<close>

definition get_line :: "env \<Rightarrow> parser \<Rightarrow> wstr option \<times> parser" where
  "get_line e ps = (if is_unicode ps then get_lineW e ps else get_lineA e ps)"

definition get_line_NULL :: "parser \<Rightarrow> parser" where
  "get_line_NULL ps = (if is_unicode ps then ps\<lparr>sizeW := 0\<rparr> else ps\<lparr>sizeA := 0\<rparr>)"

section \<open>Keys\<close>

datatype LONG = ERROR_SUCCESS | ERROR_INVALID_PARAMETER | ERROR_CODE nat

definition parse_key_name :: "env \<Rightarrow> wstr option \<Rightarrow> hkey option \<times> wstr option" where
  "parse_key_name e key_name' =
     (case key_name' of
        None \<Rightarrow> (None, None)
      | Some kn \<Rightarrow>
          (path_get_rootkey e (cstr kn),
           (case strchrW kn (wc CHR 0x5C) of None \<Rightarrow> None | Some q \<Rightarrow> Some (tl q))))"

definition close_key :: "parser \<Rightarrow> parser" where
  "close_key ps =
     (case hkey ps of
        None \<Rightarrow> ps
      | Some h \<Rightarrow> (emit (CloseKey h) (ps\<lparr>key_name := None\<rparr>))\<lparr>hkey := None\<rparr>)"

definition open_key :: "env \<Rightarrow> parser \<Rightarrow> wstr option \<Rightarrow> LONG \<times> parser" where
  "open_key e ps0 path =
     (let ps = close_key ps0 in
      case path of
        None \<Rightarrow> (ERROR_INVALID_PARAMETER, ps)
      | Some p \<Rightarrow>
          (case parse_key_name e path of
             (None, key_path) \<Rightarrow> (ERROR_INVALID_PARAMETER, ps)
           | (Some key_class, key_path) \<Rightarrow>
               (case RegCreateKeyExW e (trace ps) key_class (map_option cstr key_path) of
                  Inr h \<Rightarrow>
                    (ERROR_SUCCESS,
                     (emit (CreateKey key_class (map_option cstr key_path) (Inr h)) ps)
                       \<lparr>hkey := Some h, key_name := Some (cstr p)\<rparr>)
                | Inl err \<Rightarrow>
                    (ERROR_CODE err,
                     (emit (CreateKey key_class (map_option cstr key_path) (Inl err)) ps)
                       \<lparr>hkey := None\<rparr>))))"

definition free_parser_data :: "parser \<Rightarrow> parser" where
  "free_parser_data ps = ps\<lparr>data := NullData, data_size := 0\<rparr>"

section \<open>The data type tags\<close>

text \<open>The table \<open>data_types\<close>: tag, len, type (-1 for the generic form) and parse
  type.\<close>

definition data_types :: "(wstr \<times> nat \<times> int \<times> dword) list" where
  "data_types =
     [([wc CHR 0x22], 1, 1, REG_SZ),
      (wide ''hex:'', 4, 3, REG_BINARY),
      (wide ''dword:'', 6, 4, REG_DWORD),
      (wide ''hex('', 4, - 1, REG_BINARY)]"

text \<open>The loop of parse\_data\_type over the table; the result is the returned BOOL, the
  parser and the pointer \<open>*line\<close> as the call leaves them.\<close>

fun parse_data_type_from ::
  "(wstr \<times> nat \<times> int \<times> dword) list \<Rightarrow> parser \<Rightarrow> wstr \<Rightarrow> bool \<times> parser \<times> wstr" where
  "parse_data_type_from [] ps line = (False, ps, line)"
| "parse_data_type_from ((tag, len, ty, pty) # rest) ps line =
     (if strncmpW tag line len \<noteq> 0 then parse_data_type_from rest ps line
      else
        let ps1 = ps\<lparr>parse_type := pty, data_type := pty\<rparr>;
            line1 = drop len line
        in if ty = - 1 then
             if deref line1 = 0 \<or> tolowerW (deref (tl line1)) = wc CHR ''x''
             then (False, ps1, line1)
             else
               (case wcstoul line1 of
                  (val, end', overflow) \<Rightarrow>
                    let ps2 = ps1\<lparr>errno_ERANGE := (errno_ERANGE ps1 \<or> overflow)\<rparr> in
                    if deref end' \<noteq> wc CHR '')'' \<or> deref (tl end') \<noteq> wc CHR '':''
                       \<or> (val = 0xffffffff \<and> errno_ERANGE ps2)
                    then (False, ps2, line1)
                    else (True, ps2\<lparr>data_type := val\<rparr>, drop 2 end'))
           else (True, ps1, line1))"

definition parse_data_type :: "parser \<Rightarrow> wstr \<Rightarrow> bool \<times> parser \<times> wstr" where
  "parse_data_type ps line = parse_data_type_from data_types ps line"

section \<open>The state handlers\<close>

text \<open>
  A handler takes the parser and the position and returns the parser as it leaves it and
  the new position; \<open>None\<close> is the NULL that ends the main loop.
\<close>

definition header_state :: "env \<Rightarrow> parser \<Rightarrow> wstr \<Rightarrow> parser \<times> wstr option" where
  "header_state e ps0 pos =
     (case get_line e ps0 of
        (None, ps) \<Rightarrow> (ps, None)
      | (Some line, ps) \<Rightarrow>
          (let v = (if \<not> is_unicode ps
                    then parse_file_header (take 2 (two_wchars ps) @ cstr line)
                    else parse_file_header line);
               ps1 = ps\<lparr>reg_version := Some v\<rparr>
           in case v of
                REG_VERSION_31 \<Rightarrow> (set_state ps1 PARSE_WIN31_LINE, Some line)
              | REG_VERSION_40 \<Rightarrow> (set_state ps1 LINE_START, Some line)
              | REG_VERSION_50 \<Rightarrow> (set_state ps1 LINE_START, Some line)
              | _ \<Rightarrow> (get_line_NULL ps1, None)))"

definition hkcr :: wstr where
  "hkcr = wide ''HKEY_CLASSES_ROOT''"

text \<open>\<^verbatim>\<open>while (line[key_end] && !isspaceW(line[key_end])) key_end++;\<close>\<close>

fun win31_key_end :: "wstr \<Rightarrow> nat" where
  "win31_key_end [] = 0"
| "win31_key_end (c # cs) = (if c \<noteq> 0 \<and> \<not> isspaceW c then Suc (win31_key_end cs) else 0)"

definition parse_win31_line_state :: "env \<Rightarrow> parser \<Rightarrow> wstr \<Rightarrow> parser \<times> wstr option" where
  "parse_win31_line_state e ps0 pos =
     (case get_line e ps0 of
        (None, ps) \<Rightarrow> (ps, None)
      | (Some line, ps) \<Rightarrow>
          if strncmpW line hkcr 17 \<noteq> 0 then (ps, Some line)
          else
            let key_end = win31_key_end line;
                v0 = key_end + length (takeWhile is_blank (drop key_end line));
                v1 = (if at line v0 = wc CHR ''='' then v0 + 1 else v0);
                v2 = (if at line v1 = wc CHR '' '' then v1 + 1 else v1);
                line' = line[key_end := 0];
                val = drop v2 line'
            in case open_key e ps (Some line') of
                 (res, ps1) \<Rightarrow>
                   if res \<noteq> ERROR_SUCCESS
                   then (emit (Message (STRING_OPEN_KEY_FAILED (cstr line'))) ps1, Some line')
                   else
                     (set_state
                        (ps1\<lparr>value_name := None, data_type := REG_SZ, data := LineData val,
                             data_size := (strlen val + 1) * 2\<rparr>)
                        SET_VALUE,
                      Some val))"

text \<open>The loop of line\_start\_state over the line: the state to set, if any, and the
  position returned.\<close>

fun line_start_scan :: "wstr \<Rightarrow> parser_state option \<times> wstr" where
  "line_start_scan [] = (None, [])"
| "line_start_scan (c # cs) =
     (if c = 0 then (None, c # cs)
      else if c = wc CHR ''['' then (Some KEY_NAME, cs)
      else if c = wc CHR ''@'' then (Some DEFAULT_VALUE_NAME, c # cs)
      else if c = wc CHR 0x22 then (Some QUOTED_VALUE_NAME, cs)
      else if c = wc CHR '' '' \<or> c = wc CHR 0x09 then line_start_scan cs
      else (None, c # cs))"

definition line_start_state :: "env \<Rightarrow> parser \<Rightarrow> wstr \<Rightarrow> parser \<times> wstr option" where
  "line_start_state e ps0 pos =
     (case get_line e ps0 of
        (None, ps) \<Rightarrow> (ps, None)
      | (Some line, ps) \<Rightarrow>
          (case line_start_scan line of
             (None, p) \<Rightarrow> (ps, Some p)
           | (Some st, p) \<Rightarrow> (set_state ps st, Some p)))"

definition key_name_state :: "env \<Rightarrow> parser \<Rightarrow> wstr \<Rightarrow> parser \<times> wstr option" where
  "key_name_state e ps pos =
     (if deref pos = wc CHR '' '' \<or> deref pos = wc CHR 0x09 then (set_state ps LINE_START, Some pos)
      else
        case strrchrW pos (wc CHR '']'') of
          None \<Rightarrow> (set_state ps LINE_START, Some pos)
        | Some key_end \<Rightarrow>
            let p = pos[key_end := 0] in
            if deref p = wc CHR ''-''
            then (set_state (emit (Fixme ''key deletion not yet implemented'') ps) LINE_START,
                  Some p)
            else
              (case open_key e ps (Some p) of
                 (res, ps1) \<Rightarrow>
                   (set_state
                      (if res \<noteq> ERROR_SUCCESS
                       then emit (Message (STRING_OPEN_KEY_FAILED (cstr p))) ps1 else ps1)
                      LINE_START,
                    Some p)))"

definition default_value_name_state :: "env \<Rightarrow> parser \<Rightarrow> wstr \<Rightarrow> parser \<times> wstr option" where
  "default_value_name_state e ps pos =
     (set_state (ps\<lparr>value_name := None\<rparr>) DATA_START, Some (tl pos))"

definition report_escapes :: "wchar list \<Rightarrow> parser \<Rightarrow> parser" where
  "report_escapes cs ps =
     ps\<lparr>trace := trace ps @ map (\<lambda>c. Message (STRING_ESCAPE_SEQUENCE c)) cs\<rparr>"

definition quoted_value_name_state :: "env \<Rightarrow> parser \<Rightarrow> wstr \<Rightarrow> parser \<times> wstr option" where
  "quoted_value_name_state e ps0 pos =
     (let ps = ps0\<lparr>value_name := None\<rparr> in
      case unescape_string pos of
        (ret, val_name, p, msgs) \<Rightarrow>
          if \<not> ret then (set_state (report_escapes msgs ps) LINE_START, Some val_name)
          else
            (set_state ((report_escapes msgs ps)\<lparr>value_name := Some (cstr val_name)\<rparr>)
               DATA_START,
             p))"

text \<open>\<^verbatim>\<open>while (len > 0 && (p[len - 1] == ' ' || p[len - 1] == '\t')) len--;\<close>\<close>

fun trim_len :: "wstr \<Rightarrow> nat \<Rightarrow> nat" where
  "trim_len p 0 = 0"
| "trim_len p (Suc n) = (if is_blank (at p n) then trim_len p n else Suc n)"

definition data_start_state :: "env \<Rightarrow> parser \<Rightarrow> wstr \<Rightarrow> parser \<times> wstr option" where
  "data_start_state e ps pos =
     (let p0 = skip_blanks pos in
      if deref p0 \<noteq> wc CHR ''='' then (set_state ps LINE_START, Some p0)
      else
        let p1 = skip_blanks (tl p0);
            len = trim_len p1 (strlen p1);
            p = take len p1
        in if deref p = wc CHR ''-''
           then (set_state (emit (Fixme ''value deletion not yet implemented'') ps) LINE_START,
                 Some p)
           else (set_state ps DATA_TYPE, Some p))"

definition data_type_state :: "env \<Rightarrow> parser \<Rightarrow> wstr \<Rightarrow> parser \<times> wstr option" where
  "data_type_state e ps pos =
     (case parse_data_type ps pos of
        (ok, ps1, line) \<Rightarrow>
          if \<not> ok then (set_state ps1 LINE_START, Some line)
          else if parse_type ps1 = REG_SZ then (set_state ps1 STRING_DATA, Some line)
          else if parse_type ps1 = REG_DWORD then (set_state ps1 DWORD_DATA, Some line)
          else (set_state ps1 LINE_START, Some line))"

definition string_data_state :: "env \<Rightarrow> parser \<Rightarrow> wstr \<Rightarrow> parser \<times> wstr option" where
  "string_data_state e ps0 pos =
     (case unescape_string pos of
        (ret, str, unparsed, msgs) \<Rightarrow>
          let ps = report_escapes msgs (ps0\<lparr>data := LineData str\<rparr>) in
          case unparsed of
            None \<Rightarrow> (set_state (free_parser_data ps) LINE_START, uninit_line e)
          | Some l \<Rightarrow>
              if \<not> ret then (set_state (free_parser_data ps) LINE_START, Some l)
              else
                let line = skip_blanks l in
                if deref line \<noteq> 0 \<and> deref line \<noteq> wc CHR '';''
                then (set_state (free_parser_data ps) LINE_START, Some line)
                else (set_state (ps\<lparr>data_size := (strlen str + 1) * 2\<rparr>) SET_VALUE,
                      Some line))"

definition dword_data_state :: "env \<Rightarrow> parser \<Rightarrow> wstr \<Rightarrow> parser \<times> wstr option" where
  "dword_data_state e ps pos =
     (case convert_hex_to_dword pos of
        None \<Rightarrow> (set_state (free_parser_data (ps\<lparr>data := HeapDword None\<rparr>)) LINE_START, Some pos)
      | Some dw \<Rightarrow>
          (set_state (ps\<lparr>data := HeapDword (Some dw), data_size := 4\<rparr>) SET_VALUE, Some pos))"

text \<open>The \<open>n\<close> bytes that RegSetValueExW reads at \<open>data\<close>.\<close>

definition wchar_bytes :: "wchar \<Rightarrow> byte list" where
  "wchar_bytes c = [ucast c, ucast (drop_bit 8 c)]"

definition dword_bytes :: "dword \<Rightarrow> byte list" where
  "dword_bytes d = [ucast d, ucast (drop_bit 8 d), ucast (drop_bit 16 d), ucast (drop_bit 24 d)]"

definition data_bytes :: "data_ptr \<Rightarrow> nat \<Rightarrow> byte list" where
  "data_bytes d n =
     (case d of
        NullData \<Rightarrow> []
      | LineData s \<Rightarrow> take n (concat (map wchar_bytes (s @ [0])))
      | HeapDword None \<Rightarrow> []
      | HeapDword (Some dw) \<Rightarrow> take n (dword_bytes dw))"

definition set_value_state :: "env \<Rightarrow> parser \<Rightarrow> wstr \<Rightarrow> parser \<times> wstr option" where
  "set_value_state e ps0 pos =
     (let ps = free_parser_data
                 (emit (SetValue (hkey ps0) (value_name ps0) (data_type ps0)
                          (data_bytes (data ps0) (data_size ps0))) ps0)
      in if reg_version ps = Some REG_VERSION_31 then (set_state ps PARSE_WIN31_LINE, Some pos)
         else (set_state ps LINE_START, Some pos))"

text \<open>The table \<open>parser_funcs\<close>, indexed by the state.\<close>

fun parser_funcs :: "parser_state \<Rightarrow> env \<Rightarrow> parser \<Rightarrow> wstr \<Rightarrow> parser \<times> wstr option" where
  "parser_funcs HEADER = header_state"
| "parser_funcs PARSE_WIN31_LINE = parse_win31_line_state"
| "parser_funcs LINE_START = line_start_state"
| "parser_funcs KEY_NAME = key_name_state"
| "parser_funcs DEFAULT_VALUE_NAME = default_value_name_state"
| "parser_funcs QUOTED_VALUE_NAME = quoted_value_name_state"
| "parser_funcs DATA_START = data_start_state"
| "parser_funcs DATA_TYPE = data_type_state"
| "parser_funcs STRING_DATA = string_data_state"
| "parser_funcs DWORD_DATA = dword_data_state"
| "parser_funcs SET_VALUE = set_value_state"

section \<open>The main loop\<close>

text \<open>
  The loop \<^verbatim>\<open>while (pos) pos = (parser_funcs[parser.state])(&parser, pos);\<close> ends:
  every handler that returns a position either has taken a line from the line source,
  which brings the source closer to its end, or leaves the source alone and moves to a
  state that is closer to the next read.
\<close>

definition rmeasure :: "nat \<Rightarrow> 'a list option \<Rightarrow> nat \<Rightarrow> nat" where
  "rmeasure sz nx n = (if sz = 0 then n + 1 else case nx of None \<Rightarrow> 0 | Some s \<Rightarrow> length s + n + 1)"

definition reader_measure :: "parser \<Rightarrow> nat" where
  "reader_measure ps =
     (if is_unicode ps then rmeasure (sizeW ps) (nextW ps) (length (file_rest ps))
      else rmeasure (sizeA ps) (nextA ps) (length (file_rest ps)))"

fun state_rank :: "parser_state \<Rightarrow> nat" where
  "state_rank HEADER = 0"
| "state_rank PARSE_WIN31_LINE = 0"
| "state_rank LINE_START = 0"
| "state_rank KEY_NAME = 1"
| "state_rank SET_VALUE = 1"
| "state_rank STRING_DATA = 2"
| "state_rank DWORD_DATA = 2"
| "state_rank DATA_TYPE = 3"
| "state_rank DATA_START = 4"
| "state_rank DEFAULT_VALUE_NAME = 5"
| "state_rank QUOTED_VALUE_NAME = 5"

lemma strlen_le: "strlen s \<le> length s"
  by (induction s) auto

lemma strpbrk_less: "strpbrk s a = Some p \<Longrightarrow> p < length s"
  by (induction s arbitrary: p) (auto split: if_splits)

lemma length_wchars_of: "length (wchars_of bs) = length bs div 2"
  by (induction bs rule: wchars_of.induct) auto

lemma get_lineA_loop_measure:
  "get_lineA_loop sz nxt fp = (line, sz', nx', fp') \<Longrightarrow> 0 < sz \<Longrightarrow>
   0 < sz' \<and> (case nx' of None \<Rightarrow> True | Some n' \<Rightarrow> length n' + length fp' < length nxt + length fp)"
proof (induction sz nxt fp rule: get_lineA_loop.induct)
  case (1 sz nxt fp)
  show ?case
  proof (cases "strpbrk nxt [CR, LF]")
    case (Some p)
    with "1.prems" strpbrk_less [OF Some] show ?thesis
      by (auto simp: get_lineA_loop.simps [of sz nxt fp])
  next
    case None
    define len where "len = strlen nxt"
    define sz2 where "sz2 = (if sz - len < 3 then sz * 2 else sz)"
    define count where "count = min (sz2 - len - 1) (length fp)"
    have szpos: "0 < sz2" using "1.prems"(2) by (simp add: sz2_def)
    have unfold: "get_lineA_loop sz nxt fp =
        (if count = 0 then (take len nxt, sz2, None, fp)
         else get_lineA_loop sz2 (take len nxt @ take count fp) (drop count fp))"
      by (subst get_lineA_loop.simps) (simp only: None option.case Let_def len_def sz2_def count_def)
    show ?thesis
    proof (cases "count = 0")
      case True
      with unfold "1.prems" szpos show ?thesis by simp
    next
      case False
      have rec: "get_lineA_loop sz2 (take len nxt @ take count fp) (drop count fp) = (line, sz', nx', fp')"
        using unfold False "1.prems"(1) by simp
      have IH: "0 < sz' \<and> (case nx' of None \<Rightarrow> True | Some n' \<Rightarrow>
                  length n' + length fp' < length (take len nxt @ take count fp) + length (drop count fp))"
        using "1.IH" [OF None len_def sz2_def count_def False rec szpos] .
      have "length (take len nxt @ take count fp) + length (drop count fp) \<le> length nxt + length fp"
        using strlen_le [of nxt] by (simp add: len_def count_def)
      with IH show ?thesis by (auto split: option.splits)
    qed
  qed
qed

lemma get_lineW_loop_measure:
  "get_lineW_loop e sz nxt fp = (line, sz', nx', fp') \<Longrightarrow> 0 < sz \<Longrightarrow>
   0 < sz' \<and> (case nx' of None \<Rightarrow> True | Some n' \<Rightarrow> length n' + length fp' < length nxt + length fp)"
proof (induction e sz nxt fp rule: get_lineW_loop.induct)
  case (1 e sz nxt fp)
  show ?case
  proof (cases "strpbrk nxt [CR, LF]")
    case (Some p)
    with "1.prems" strpbrk_less [OF Some] show ?thesis
      by (auto simp: get_lineW_loop.simps [of e sz nxt fp])
  next
    case None
    define len where "len = strlen nxt"
    define sz2 where "sz2 = (if sz - len < 3 then sz * 2 else sz)"
    define got where "got = take (2 * (sz2 - len - 1)) fp"
    define count where "count = length got div 2"
    have szpos: "0 < sz2" using "1.prems"(2) by (simp add: sz2_def)
    have unfold: "get_lineW_loop e sz nxt fp =
        (if count = 0 then
           if got = [] then (take len nxt, sz2, None, fp)
           else (take len nxt @ ucast (hd got) # buffer_behind e (take len nxt), sz2, None,
                 drop (length got) fp)
         else get_lineW_loop e sz2 (take len nxt @ wchars_of got) (drop (length got) fp))"
      by (subst get_lineW_loop.simps)
        (simp only: None option.case Let_def len_def sz2_def got_def count_def)
    show ?thesis
    proof (cases "count = 0")
      case True
      with unfold "1.prems" szpos show ?thesis by (auto split: if_splits)
    next
      case False
      have rec: "get_lineW_loop e sz2 (take len nxt @ wchars_of got) (drop (length got) fp) = (line, sz', nx', fp')"
        using unfold False "1.prems"(1) by simp
      have IH: "0 < sz' \<and> (case nx' of None \<Rightarrow> True | Some n' \<Rightarrow>
                  length n' + length fp' < length (take len nxt @ wchars_of got) + length (drop (length got) fp))"
        using "1.IH" [OF None len_def sz2_def got_def count_def False rec szpos] .
      have "length got \<le> length fp" by (simp add: got_def)
      then have "length (take len nxt @ wchars_of got) + length (drop (length got) fp) \<le> length nxt + length fp"
        using strlen_le [of nxt] by (simp add: len_def length_wchars_of)
      with IH show ?thesis by (auto split: option.splits)
    qed
  qed
qed


lemma rm_set_state [simp]: "reader_measure (set_state ps st) = reader_measure ps"
  by (simp add: reader_measure_def set_state_def)

lemma rm_emit [simp]: "reader_measure (emit ev ps) = reader_measure ps"
  by (simp add: reader_measure_def emit_def)

lemma rm_report_escapes [simp]: "reader_measure (report_escapes cs ps) = reader_measure ps"
  by (simp add: reader_measure_def report_escapes_def)

lemma rm_free_parser_data [simp]: "reader_measure (free_parser_data ps) = reader_measure ps"
  by (simp add: reader_measure_def free_parser_data_def)

lemma rm_close_key [simp]: "reader_measure (close_key ps) = reader_measure ps"
  by (simp add: close_key_def reader_measure_def emit_def split: option.splits)

lemma rm_open_key: "open_key e ps p = (r, ps') \<Longrightarrow> reader_measure ps' = reader_measure ps"
  by (auto simp: open_key_def Let_def reader_measure_def emit_def close_key_def
      split: option.splits sum.splits prod.splits)

lemma rm_parse_data_type_from:
  "parse_data_type_from tab ps line = (ok, ps', line') \<Longrightarrow> reader_measure ps' = reader_measure ps"
proof (induction tab ps line rule: parse_data_type_from.induct)
  case (1 ps line)
  then show ?case by simp
next
  case (2 tag len ty pty rest ps line)
  show ?case
  proof (cases "strncmpW tag line len \<noteq> 0")
    case True
    with 2 show ?thesis by simp
  next
    case False
    with "2.prems" show ?thesis
      by (auto simp: Let_def reader_measure_def split: if_splits prod.splits)
  qed
qed

lemma rm_get_line:
  assumes "get_line e ps = (Some line, ps')"
  shows "reader_measure ps' < reader_measure ps"
proof (cases "is_unicode ps")
  case True
  define ps1 where "ps1 = (if sizeW ps = 0 then ps\<lparr>sizeW := REG_VAL_BUF_SIZE, nextW := Some []\<rparr> else ps)"
  from assms True obtain nxt l sz' nx' fp' where
    nx: "nextW ps1 = Some nxt" and
    loop: "get_lineW_loop e (sizeW ps1) nxt (file_rest ps1) = (l, sz', nx', fp')" and
    ps': "ps' = ps1\<lparr>sizeW := sz', nextW := nx', file_rest := fp'\<rparr>"
    by (auto simp: get_line_def get_lineW_def Let_def ps1_def split: option.splits prod.splits if_splits)
  have pos: "0 < sizeW ps1" by (simp add: ps1_def REG_VAL_BUF_SIZE_def)
  have m1: "reader_measure ps1 = reader_measure ps"
    using True by (simp add: ps1_def reader_measure_def rmeasure_def REG_VAL_BUF_SIZE_def)
  have u1: "is_unicode ps1" using True by (simp add: ps1_def)
  from get_lineW_loop_measure [OF loop pos] nx pos u1 show ?thesis
    unfolding m1 [symmetric] ps'
    by (auto simp: reader_measure_def rmeasure_def split: option.splits)
next
  case False
  define ps1 where "ps1 = (if sizeA ps = 0 then ps\<lparr>sizeA := REG_VAL_BUF_SIZE, nextA := Some []\<rparr> else ps)"
  from assms False obtain nxt l sz' nx' fp' where
    nx: "nextA ps1 = Some nxt" and
    loop: "get_lineA_loop (sizeA ps1) nxt (file_rest ps1) = (l, sz', nx', fp')" and
    ps': "ps' = ps1\<lparr>sizeA := sz', nextA := nx', file_rest := fp'\<rparr>"
    by (auto simp: get_line_def get_lineA_def Let_def ps1_def split: option.splits prod.splits if_splits)
  have pos: "0 < sizeA ps1" by (simp add: ps1_def REG_VAL_BUF_SIZE_def)
  have m1: "reader_measure ps1 = reader_measure ps"
    using False by (simp add: ps1_def reader_measure_def rmeasure_def REG_VAL_BUF_SIZE_def)
  have u1: "\<not> is_unicode ps1" using False by (simp add: ps1_def)
  from get_lineA_loop_measure [OF loop pos] nx pos u1 show ?thesis
    unfolding m1 [symmetric] ps'
    by (auto simp: reader_measure_def rmeasure_def split: option.splits)
qed


lemma rm_updates [simp]:
  "reader_measure (ps\<lparr>reg_version := v1\<rparr>) = reader_measure ps"
  "reader_measure (ps\<lparr>hkey := v2\<rparr>) = reader_measure ps"
  "reader_measure (ps\<lparr>key_name := v3\<rparr>) = reader_measure ps"
  "reader_measure (ps\<lparr>value_name := v4\<rparr>) = reader_measure ps"
  "reader_measure (ps\<lparr>parse_type := v5\<rparr>) = reader_measure ps"
  "reader_measure (ps\<lparr>data_type := v6\<rparr>) = reader_measure ps"
  "reader_measure (ps\<lparr>data := v7\<rparr>) = reader_measure ps"
  "reader_measure (ps\<lparr>data_size := v8\<rparr>) = reader_measure ps"
  "reader_measure (ps\<lparr>state := v9\<rparr>) = reader_measure ps"
  "reader_measure (ps\<lparr>errno_ERANGE := v10\<rparr>) = reader_measure ps"
  "reader_measure (ps\<lparr>trace := v11\<rparr>) = reader_measure ps"
  by (simp_all add: reader_measure_def)

lemma step_decreases:
  assumes "parser_funcs (state ps) e ps pos = (ps', Some pos')"
  shows "reader_measure ps' < reader_measure ps \<or>
         (reader_measure ps' = reader_measure ps \<and> state_rank (state ps') < state_rank (state ps))"
proof (cases "state ps")
  case HEADER
  with assms show ?thesis
    by (auto simp: header_state_def Let_def dest: rm_get_line
        split: option.splits prod.splits reg_versions.splits)
next
  case PARSE_WIN31_LINE
  with assms show ?thesis
    by (auto simp: parse_win31_line_state_def Let_def dest!: rm_get_line rm_open_key
        split: option.splits prod.splits if_splits)
next
  case LINE_START
  with assms show ?thesis
    by (auto simp: line_start_state_def dest: rm_get_line split: option.splits prod.splits)
next
  case KEY_NAME
  with assms show ?thesis
    by (auto simp: key_name_state_def Let_def set_state_def dest!: rm_open_key
        split: option.splits prod.splits if_splits)
next
  case DEFAULT_VALUE_NAME
  with assms show ?thesis
    by (auto simp: default_value_name_state_def set_state_def reader_measure_def)
next
  case QUOTED_VALUE_NAME
  with assms show ?thesis
    by (auto simp: quoted_value_name_state_def Let_def set_state_def reader_measure_def report_escapes_def
        split: prod.splits if_splits)
next
  case DATA_START
  with assms show ?thesis
    by (auto simp: data_start_state_def Let_def set_state_def 
        split: prod.splits if_splits)
next
  case DATA_TYPE
  with assms show ?thesis
    by (auto simp: data_type_state_def parse_data_type_def Let_def set_state_def dest!: rm_parse_data_type_from
        split: prod.splits if_splits)
next
  case STRING_DATA
  with assms show ?thesis
    by (auto simp: string_data_state_def Let_def set_state_def reader_measure_def report_escapes_def free_parser_data_def
        split: prod.splits if_splits option.splits)
next
  case DWORD_DATA
  with assms show ?thesis
    by (auto simp: dword_data_state_def Let_def set_state_def reader_measure_def free_parser_data_def
        split: prod.splits if_splits option.splits)
next
  case SET_VALUE
  with assms show ?thesis
    by (auto simp: set_value_state_def Let_def set_state_def reader_measure_def free_parser_data_def emit_def
        split: prod.splits if_splits option.splits)
qed

definition loop_rel :: "((env \<times> parser \<times> wstr option) \<times> (env \<times> parser \<times> wstr option)) set" where
  "loop_rel = measures [\<lambda>(e, ps, pos). (case pos of None \<Rightarrow> 0 | Some x \<Rightarrow> Suc 0),
                        \<lambda>(e, ps, pos). reader_measure ps,
                        \<lambda>(e, ps, pos). state_rank (state ps)]"

lemma loop_step:
  assumes step: "parser_funcs (state ps) e ps pos = (ps', pos')"
  shows "((e, ps', pos'), (e, ps, Some pos)) \<in> loop_rel"
proof (cases pos')
  case None
  then show ?thesis by (simp add: loop_rel_def)
next
  case (Some p')
  with step_decreases [of ps e pos ps' p'] step show ?thesis by (auto simp: loop_rel_def)
qed

function parser_loop :: "env \<Rightarrow> parser \<Rightarrow> wstr option \<Rightarrow> parser" where
  "parser_loop e ps None = ps"
| "parser_loop e ps (Some pos) =
     (case parser_funcs (state ps) e ps pos of (ps', pos') \<Rightarrow> parser_loop e ps' pos')"
  by pat_completeness auto
termination
proof (relation loop_rel)
  show "wf loop_rel" by (simp add: loop_rel_def)
qed (use loop_step [OF prod.collapse [symmetric]] in simp)

declare parser_loop.simps [simp del]


section \<open>reg\_import\<close>

text \<open>
  The stream is \<open>None\<close> when \_wfopen fails, and the bytes of the file otherwise; the
  static variables of the line source are those of a fresh process.  The result is the
  exit code and the trace of events.
\<close>

definition initial_parser :: "env \<Rightarrow> byte \<Rightarrow> byte \<Rightarrow> byte list \<Rightarrow> parser" where
  "initial_parser e s0 s1 rest =
     \<lparr>file_rest = rest, two_wchars = [ucast s0, ucast s1],
      is_unicode = (s0 = 0xff \<and> s1 = 0xfe), reg_version = None, hkey = None,
      key_name = None, value_name = None, parse_type = 0, data_type = 0, data = NullData,
      data_size = 0, state = HEADER, sizeA = 0, nextA = None, sizeW = 0, nextW = None,
      errno_ERANGE = errno_at_start e, trace = []\<rparr>"

text \<open>The parser when the main loop has ended.\<close>

definition reg_import_loop :: "env \<Rightarrow> byte \<Rightarrow> byte \<Rightarrow> byte list \<Rightarrow> parser" where
  "reg_import_loop e s0 s1 rest =
     parser_loop e (initial_parser e s0 s1 rest) (Some (two_wchars (initial_parser e s0 s1 rest)))"

fun reg_import :: "env \<Rightarrow> byte list option \<Rightarrow> nat \<times> event list" where
  "reg_import e None = (1, [Message STRING_FILE_NOT_FOUND])"
| "reg_import e (Some (s0 # s1 # rest)) =
     (let ps = reg_import_loop e s0 s1 rest in
      if reg_version ps = Some REG_VERSION_INVALID then (1, trace ps)
      else if reg_version ps = Some REG_VERSION_40 \<or> reg_version ps = Some REG_VERSION_50
      then (1, trace (emit (Fixme '': operation not yet implemented'') ps))
      else (0, trace (close_key ps)))"
| "reg_import e (Some bs) = (1, [])"

section \<open>Facts about the string functions\<close>

lemma unat_wc: "unat (wc c) = of_char c"
proof -
  have "(of_char c :: nat) < 256" by (rule nat_of_char_less_256)
  then have "(of_char c :: nat) < 2 ^ LENGTH(16)" by (rule order_less_trans) simp
  then have "unat (of_nat (of_char c) :: 16 word) = of_char c"
    by (simp add: unat_of_nat take_bit_nat_eq_self)
  then show ?thesis unfolding wc_def by (metis of_nat_of_char)
qed

lemma wc_eq_iff: "(wc a = wc b) = (a = b)"
  by (metis unat_wc of_char_eq_iff)

lemma cstr_simps [simp]:
  "cstr [] = []" "cstr (c # cs) = (if c = 0 then [] else c # cstr cs)"
  by (simp_all add: cstr_def)

lemma uint_eq: "(uint (a::wchar) = uint b) = (a = b)"
  by (simp add: word_uint_eq_iff)

lemma uint_eq_0: "(uint (a::wchar) = 0) = (a = 0)"
  by (simp add: uint_0_iff)

lemma strcmpW_eq: "(strcmpW s1 s2 = 0) = (cstr s1 = cstr s2)"
proof (induction s1 arbitrary: s2)
  case Nil
  show ?case by (cases s2) (simp_all add: uint_eq_0)
next
  case (Cons c s1)
  show ?case
  proof (cases s2)
    case Nil
    then show ?thesis by (simp add: uint_eq_0)
  next
    case (Cons d s2')
    with Cons.IH [of s2'] show ?thesis by (simp add: uint_eq uint_eq_0)
  qed
qed

lemma take_cstr_head:
  "n = 0 \<or> deref s1 = 0 \<or> deref s1 \<noteq> deref s2 \<Longrightarrow>
   (take (Suc n) (cstr s1) = take (Suc n) (cstr s2)) = (deref s1 = deref s2)"
  by (cases s1; cases s2) auto

lemma strncmpW_eq: "(strncmpW s1 s2 n = 0) = (take n (cstr s1) = take n (cstr s2))"
proof (induction n arbitrary: s1 s2)
  case 0
  show ?case by simp
next
  case (Suc n)
  show ?case
  proof (cases "0 < n \<and> deref s1 \<noteq> 0 \<and> deref s1 = deref s2")
    case True
    then obtain c t1 t2 where "s1 = c # t1" "s2 = c # t2" "c \<noteq> 0"
      by (cases s1; cases s2) auto
    with True Suc.IH [of t1 t2] show ?thesis by simp
  next
    case False
    then have "strncmpW s1 s2 (Suc n) = uint (deref s1) - uint (deref s2)"
      by auto
    moreover from False have "n = 0 \<or> deref s1 = 0 \<or> deref s1 \<noteq> deref s2"
      by auto
    ultimately show ?thesis
      by (simp only: take_cstr_head) (simp add: uint_eq)
  qed
qed

lemma wc_nonzero: "c \<noteq> CHR 0x00 \<Longrightarrow> wc c \<noteq> 0"
  using wc_eq_iff [of c "CHR 0x00"] by (simp add: wc_def)

lemma cstr_wide: "CHR 0x00 \<notin> set s \<Longrightarrow> cstr (wide s) = wide s"
  unfolding wide_def by (induction s) (auto simp: wc_nonzero)


lemma skip_blanks_eq: "skip_blanks s = dropWhile is_blank s"
  by (induction s) auto

section \<open>The header classifier is exact\<close>

text \<open>
  Claim C1.  parse\_file\_header skips the leading spaces and tabs of its argument and
  then decides on the text that remains (the units before the first NUL): Legacy 3.1, 4.0
  or 5.00 exactly when that text is REGEDIT, REGEDIT4 or Windows Registry Editor Version
  5.00; otherwise the fuzzy version exactly when its first seven units are REGEDIT; and the
  invalid version in every other case.
\<close>

theorem parse_file_header_classification:
  "parse_file_header s =
     (let t = cstr (dropWhile is_blank s) in
      if t = wide ''REGEDIT'' then REG_VERSION_31
      else if t = wide ''REGEDIT4'' then REG_VERSION_40
      else if t = wide ''Windows Registry Editor Version 5.00'' then REG_VERSION_50
      else if take 7 t = wide ''REGEDIT'' then REG_VERSION_FUZZY
      else REG_VERSION_INVALID)"
proof -
  have h31: "cstr header_31 = wide ''REGEDIT''"
    unfolding header_31_def by (rule cstr_wide) simp
  have h40: "cstr header_40 = wide ''REGEDIT4''"
    unfolding header_40_def by (rule cstr_wide) simp
  have h50: "cstr header_50 = wide ''Windows Registry Editor Version 5.00''"
    unfolding header_50_def by (rule cstr_wide) simp
  have t7: "take 7 (wide ''REGEDIT'') = wide ''REGEDIT''"
    by (simp add: wide_def)
  show ?thesis
    unfolding parse_file_header_def Let_def strcmpW_eq strncmpW_eq h31 h40 h50 t7 skip_blanks_eq
    by (rule refl)
qed


section \<open>Running the importer on examples\<close>

text \<open>
  An environment and the rewrite rules that run the definitions above on concrete files:
  the root keys HKEY\_CLASSES\_ROOT and HKEY\_CURRENT\_USER are known, every key can be
  created, and the code page maps each byte to the unit of the same value.
\<close>

definition ascii :: "string \<Rightarrow> byte list" where
  "ascii s = map of_char s"

definition example_env :: env where
  "example_env =
     \<lparr>path_get_rootkey =
        (\<lambda>s. if take 17 s = wide ''HKEY_CLASSES_ROOT'' then Some 1
             else if take 17 s = wide ''HKEY_CURRENT_USER'' then Some 2 else None),
      RegCreateKeyExW = (\<lambda>h k p. Inr 100), MultiByteToWideChar = map ucast,
      uninit_line = Some [], buffer_behind = (\<lambda>s. []), errno_at_start = False\<rparr>"

text \<open>The same environment with a registry that refuses to create any key (error 5).\<close>

definition failing_env :: env where
  "failing_env = example_env\<lparr>RegCreateKeyExW := (\<lambda>h k p. Inl 5)\<rparr>"

lemma strncmpW_numeral:
  "strncmpW s1 s2 (numeral k) =
     (if 0 < pred_numeral k \<and> deref s1 \<noteq> 0 \<and> deref s1 = deref s2
      then strncmpW (tl s1) (tl s2) (pred_numeral k)
      else uint (deref s1) - uint (deref s2))"
  by (simp only: numeral_eq_Suc strncmpW.simps)

lemmas run_simps =
  ascii_def example_env_def failing_env_def reg_import_loop_def initial_parser_def
  parser_loop.simps header_state_def parse_win31_line_state_def line_start_state_def
  key_name_state_def default_value_name_state_def quoted_value_name_state_def
  data_start_state_def data_type_state_def string_data_state_def dword_data_state_def
  set_value_state_def get_line_def get_lineA_def get_lineW_def get_lineA_loop.simps
  get_lineW_loop.simps get_line_NULL_def GetWideString_def REG_VAL_BUF_SIZE_def CR_def LF_def
  at_def parse_file_header_def header_31_def header_40_def header_50_def wide_def wc_def
  is_blank_def set_state_def emit_def open_key_def close_key_def parse_key_name_def
  free_parser_data_def parse_data_type_def data_types_def REG_SZ_def REG_BINARY_def
  REG_DWORD_def unescape_string_def unescape_loop.simps convert_hex_to_dword_def wcstoul_def
  isspaceW_def isxdigitW_def tolowerW_def xdigit_val_def strrchrW_def hkcr_def
  report_escapes_def data_bytes_def wchar_bytes_def dword_bytes_def strncmpW_numeral Let_def

section \<open>Invariants of the main loop\<close>

lemma parser_loop_invariant:
  assumes "I ps"
    and "\<And>ps pos ps' pos'. I ps \<Longrightarrow> parser_funcs (state ps) e ps pos = (ps', pos') \<Longrightarrow> I ps'"
  shows "I (parser_loop e ps pos)"
  using assms
proof (induction e ps pos rule: parser_loop.induct)
  case (1 e ps)
  then show ?case by (simp add: parser_loop.simps)
next
  case (2 e ps pos)
  obtain ps' pos' where step: "parser_funcs (state ps) e ps pos = (ps', pos')"
    by (cases "parser_funcs (state ps) e ps pos")
  have "I ps'" using "2.prems"(2) [OF "2.prems"(1) step] .
  from "2.IH" [OF step [symmetric] this "2.prems"(2)] step show ?case
    by (simp add: parser_loop.simps)
qed

lemma get_line_frame:
  assumes "get_line e ps = (l, ps')"
  shows "trace ps' = trace ps \<and> hkey ps' = hkey ps \<and> reg_version ps' = reg_version ps \<and>
         state ps' = state ps \<and> is_unicode ps' = is_unicode ps \<and> two_wchars ps' = two_wchars ps \<and>
         key_name ps' = key_name ps \<and> value_name ps' = value_name ps \<and> data ps' = data ps \<and>
         data_size ps' = data_size ps \<and> data_type ps' = data_type ps \<and> parse_type ps' = parse_type ps \<and>
         errno_ERANGE ps' = errno_ERANGE ps"
  using assms
  by (auto simp: get_line_def get_lineA_def get_lineW_def Let_def
      split: if_splits option.splits prod.splits)

lemma get_line_NULL_frame:
  "trace (get_line_NULL ps) = trace ps \<and> hkey (get_line_NULL ps) = hkey ps \<and>
   reg_version (get_line_NULL ps) = reg_version ps \<and> state (get_line_NULL ps) = state ps"
  by (simp add: get_line_NULL_def)

lemma first_get_line:
  "\<exists>line ps'. get_line e (initial_parser e s0 s1 rest) = (Some line, ps')"
  by (auto simp: get_line_def get_lineA_def get_lineW_def initial_parser_def Let_def
      split: prod.splits)



section \<open>The version is decided once, by the header\<close>

text \<open>
  The version that the HEADER handler computes for a file whose first two bytes are
  \<open>s0\<close> and \<open>s1\<close>: what the header of the file classifies as.
\<close>

lemma line_start_scan_state:
  "line_start_scan l = (Some st, p) \<Longrightarrow> st = KEY_NAME \<or> st = DEFAULT_VALUE_NAME \<or> st = QUOTED_VALUE_NAME"
  by (induction l) (auto split: if_splits)

lemma version_step:
  assumes "state ps \<noteq> HEADER" and "parser_funcs (state ps) e ps pos = (ps', pos')"
  shows "state ps' \<noteq> HEADER \<and> reg_version ps' = reg_version ps"
proof (cases "state ps")
  case HEADER
  with assms show ?thesis by simp
next
  case PARSE_WIN31_LINE
  with assms show ?thesis
    by (auto simp: parse_win31_line_state_def Let_def set_state_def emit_def open_key_def close_key_def
        dest!: get_line_frame split: option.splits prod.splits if_splits sum.splits)
next
  case LINE_START
  with assms show ?thesis
    by (auto simp: line_start_state_def set_state_def dest!: get_line_frame line_start_scan_state
        split: option.splits prod.splits)
next
  case KEY_NAME
  with assms show ?thesis
    by (auto simp: key_name_state_def Let_def set_state_def emit_def open_key_def close_key_def
        split: option.splits prod.splits if_splits sum.splits)
next
  case DEFAULT_VALUE_NAME
  with assms show ?thesis
    by (auto simp: default_value_name_state_def set_state_def)
next
  case QUOTED_VALUE_NAME
  with assms show ?thesis
    by (auto simp: quoted_value_name_state_def Let_def set_state_def report_escapes_def
        split: prod.splits if_splits)
next
  case DATA_START
  with assms show ?thesis
    by (auto simp: data_start_state_def Let_def set_state_def emit_def
        split: prod.splits if_splits)
next
  case DATA_TYPE
  have pdt: "parse_data_type_from tab p line = (ok, p', line') \<Longrightarrow>
      state p' = state p \<and> reg_version p' = reg_version p" for tab p line ok p' line'
  proof (induction tab p line rule: parse_data_type_from.induct)
    case (1 ps line)
    then show ?case by simp
  next
    case (2 tag len ty pty rest ps line)
    show ?case
    proof (cases "strncmpW tag line len \<noteq> 0")
      case True
      with 2 show ?thesis by simp
    next
      case False
      with "2.prems" show ?thesis
        by (auto simp: Let_def split: if_splits prod.splits)
    qed
  qed
  from DATA_TYPE assms show ?thesis
    by (auto simp: data_type_state_def parse_data_type_def set_state_def
        dest!: pdt split: prod.splits if_splits)
next
  case STRING_DATA
  with assms show ?thesis
    by (auto simp: string_data_state_def Let_def set_state_def report_escapes_def free_parser_data_def
        split: prod.splits if_splits option.splits)
next
  case DWORD_DATA
  with assms show ?thesis
    by (auto simp: dword_data_state_def set_state_def free_parser_data_def
        split: prod.splits if_splits option.splits)
next
  case SET_VALUE
  with assms show ?thesis
    by (auto simp: set_value_state_def Let_def set_state_def free_parser_data_def emit_def
        split: prod.splits if_splits option.splits)
qed

lemma version_loop:
  assumes "state ps \<noteq> HEADER"
  shows "reg_version (parser_loop e ps pos) = reg_version ps"
proof -
  have "state (parser_loop e ps pos) \<noteq> HEADER \<and> reg_version (parser_loop e ps pos) = reg_version ps"
    by (rule parser_loop_invariant [where I = "\<lambda>p. state p \<noteq> HEADER \<and> reg_version p = reg_version ps"])
       (use assms version_step in auto)
  then show ?thesis by simp
qed

definition header_class :: "env \<Rightarrow> byte \<Rightarrow> byte \<Rightarrow> byte list \<Rightarrow> reg_versions option" where
  "header_class e s0 s1 rest =
     reg_version (fst (header_state e (initial_parser e s0 s1 rest)
                         (two_wchars (initial_parser e s0 s1 rest))))"

lemma header_state_result:
  assumes "header_state e ps pos = (ps1, pos1)"
  shows "pos1 = None \<or> state ps1 \<noteq> HEADER"
  using assms
  by (auto simp: header_state_def Let_def set_state_def
      split: option.splits prod.splits reg_versions.splits)

lemma loop_after_header:
  "reg_import_loop e s0 s1 rest =
     (case header_state e (initial_parser e s0 s1 rest) (two_wchars (initial_parser e s0 s1 rest)) of
        (ps1, pos1) \<Rightarrow> parser_loop e ps1 pos1)"
  unfolding reg_import_loop_def
  by (subst parser_loop.simps) (simp add: initial_parser_def)

lemma loop_version: "reg_version (reg_import_loop e s0 s1 rest) = header_class e s0 s1 rest"
proof -
  obtain ps1 pos1 where hs: "header_state e (initial_parser e s0 s1 rest)
      (two_wchars (initial_parser e s0 s1 rest)) = (ps1, pos1)"
    by (cases "header_state e (initial_parser e s0 s1 rest) (two_wchars (initial_parser e s0 s1 rest))")
  have "reg_version (parser_loop e ps1 pos1) = reg_version ps1"
  proof (cases pos1)
    case None
    then show ?thesis by (simp add: parser_loop.simps)
  next
    case (Some p)
    with header_state_result [OF hs] version_loop show ?thesis by simp
  qed
  with hs show ?thesis by (simp add: loop_after_header header_class_def)
qed


text \<open>
  Claim C2.  When the header of the input classifies as version 4.0 or 5.00, reg\_import
  returns (the main loop ends on every input) and its exit code is 1, after the FIXME
  trace "operation not yet implemented", whatever the body is and however well its lines
  were parsed.
\<close>

theorem structured_dialect_not_implemented:
  assumes "header_class e s0 s1 rest = Some REG_VERSION_40 \<or>
           header_class e s0 s1 rest = Some REG_VERSION_50"
  shows "fst (reg_import e (Some (s0 # s1 # rest))) = 1 \<and>
         last (snd (reg_import e (Some (s0 # s1 # rest)))) = Fixme '': operation not yet implemented''"
  using assms by (auto simp: Let_def loop_version emit_def)


theorem structured_dialect_not_implemented_witness:
  "header_class example_env 82 69
     (ascii ''GEDIT4'' @ [13, 10] @ ascii ''[HKEY_CURRENT_USER'' @ [0x5C] @ ascii ''Foo]'' @ [13, 10]
       @ ascii ''@=dword:0000002A'' @ [13, 10]) = Some REG_VERSION_40 \<and>
   fst (reg_import example_env (Some (82 # 69 #
     ascii ''GEDIT4'' @ [13, 10] @ ascii ''[HKEY_CURRENT_USER'' @ [0x5C] @ ascii ''Foo]'' @ [13, 10]
       @ ascii ''@=dword:0000002A'' @ [13, 10]))) = 1"
proof -
  have h: "header_class example_env 82 69
     (ascii ''GEDIT4'' @ [13, 10] @ ascii ''[HKEY_CURRENT_USER'' @ [0x5C] @ ascii ''Foo]'' @ [13, 10]
       @ ascii ''@=dword:0000002A'' @ [13, 10]) = Some REG_VERSION_40"
    by (simp add: header_class_def run_simps)
  from structured_dialect_not_implemented [OF disjI1 [OF h]] h show ?thesis by simp
qed

section \<open>A fuzzy header\<close>

lemma fuzzy_header_state:
  assumes "header_class e s0 s1 rest = Some REG_VERSION_FUZZY"
  shows "\<exists>ps1. header_state e (initial_parser e s0 s1 rest) (two_wchars (initial_parser e s0 s1 rest)) = (ps1, None)
           \<and> trace ps1 = [] \<and> hkey ps1 = None \<and> reg_version ps1 = Some REG_VERSION_FUZZY"
proof -
  obtain l ps0 where gl: "get_line e (initial_parser e s0 s1 rest) = (l, ps0)"
    by (cases "get_line e (initial_parser e s0 s1 rest)")
  from get_line_frame [OF gl] have fr: "trace ps0 = []" "hkey ps0 = None" "reg_version ps0 = None"
    by (simp_all add: initial_parser_def)
  from assms gl fr show ?thesis
    by (auto simp: header_class_def header_state_def Let_def set_state_def get_line_NULL_def
        split: option.splits reg_versions.splits if_splits)
qed


text \<open>
  A file with the header REGEDIT9, followed by a key line: the header is fuzzy, and the
  exit code of reg\_import is not 1.
\<close>

theorem fuzzy_header_exit_code_counterexample:
  "header_class example_env 82 69
     (ascii ''GEDIT9'' @ [13, 10] @ ascii ''[HKEY_CURRENT_USER'' @ [0x5C] @ ascii ''Foo]'' @ [13, 10])
     = Some REG_VERSION_FUZZY \<and>
   fst (reg_import example_env (Some (82 # 69 #
     ascii ''GEDIT9'' @ [13, 10] @ ascii ''[HKEY_CURRENT_USER'' @ [0x5C] @ ascii ''Foo]'' @ [13, 10])))
     \<noteq> 1"
  by (simp add: header_class_def run_simps)

text \<open>
  Claim C3, with the exit code corrected.  The claim says that a file whose header is fuzzy
  (it starts with REGEDIT and is none of the three known headers) makes reg\_import end
  with the exit code 1 and import nothing.  The test after the main loop lets the fuzzy
  version through to \<^verbatim>\<open>return 0\<close>, as the file above shows.  What holds: when the
  header is fuzzy, reg\_import ends after the header with the exit code 0 and an empty
  trace; nothing is imported and no message is written.
\<close>

theorem fuzzy_header_imports_nothing:
  assumes "header_class e s0 s1 rest = Some REG_VERSION_FUZZY"
  shows "reg_import e (Some (s0 # s1 # rest)) = (0, [])"
proof -
  from fuzzy_header_state [OF assms] obtain ps1 where
    hs: "header_state e (initial_parser e s0 s1 rest) (two_wchars (initial_parser e s0 s1 rest)) = (ps1, None)"
    and ps1: "trace ps1 = []" "hkey ps1 = None" "reg_version ps1 = Some REG_VERSION_FUZZY"
    by blast
  have "reg_import_loop e s0 s1 rest = ps1"
    by (simp add: loop_after_header hs parser_loop.simps)
  with ps1 show ?thesis by (simp add: Let_def close_key_def)
qed

theorem fuzzy_header_imports_nothing_witness:
  "header_class example_env 82 69
     (ascii ''GEDIT 4'' @ [13, 10] @ ascii ''@=dword:0000002A'' @ [13, 10]) = Some REG_VERSION_FUZZY \<and>
   reg_import example_env (Some (82 # 69 #
     ascii ''GEDIT 4'' @ [13, 10] @ ascii ''@=dword:0000002A'' @ [13, 10])) = (0, [])"
proof -
  have h: "header_class example_env 82 69
     (ascii ''GEDIT 4'' @ [13, 10] @ ascii ''@=dword:0000002A'' @ [13, 10]) = Some REG_VERSION_FUZZY"
    by (simp add: header_class_def run_simps)
  from fuzzy_header_imports_nothing [OF h] h show ?thesis by simp
qed

section \<open>One key at a time\<close>

fun replay :: "hkey option \<Rightarrow> event list \<Rightarrow> hkey option option" where
  "replay h [] = Some h"
| "replay h (CreateKey kc kp r # es) =
     (if h = None then replay (case r of Inl err \<Rightarrow> None | Inr k \<Rightarrow> Some k) es else None)"
| "replay h (CloseKey k # es) = (if h = Some k then replay None es else None)"
| "replay h (SetValue k n t d # es) = (if k = h then replay h es else None)"
| "replay h (Message m # es) = replay h es"
| "replay h (Fixme s # es) = replay h es"

lemma replay_append:
  "replay h (xs @ ys) = (case replay h xs of None \<Rightarrow> None | Some h' \<Rightarrow> replay h' ys)"
proof (induction xs arbitrary: h)
  case Nil
  show ?case by simp
next
  case (Cons x xs)
  show ?case by (cases x) (simp_all add: Cons.IH)
qed

lemma replay_messages: "replay h (map (\<lambda>c. Message (f c)) cs) = Some h"
  by (induction cs) simp_all

definition keys_ok :: "parser \<Rightarrow> bool" where
  "keys_ok ps = (replay None (trace ps) = Some (hkey ps))"

lemma keys_ok_emit_Message: "keys_ok (emit (Message m) ps) = keys_ok ps"
  by (simp add: keys_ok_def emit_def replay_append split: option.splits)

lemma keys_ok_emit_Fixme: "keys_ok (emit (Fixme s) ps) = keys_ok ps"
  by (simp add: keys_ok_def emit_def replay_append split: option.splits)

lemma keys_ok_set_state: "keys_ok (set_state ps st) = keys_ok ps"
  by (simp add: keys_ok_def set_state_def)

lemma keys_ok_free: "keys_ok (free_parser_data ps) = keys_ok ps"
  by (simp add: keys_ok_def free_parser_data_def)

lemma keys_ok_report: "keys_ok (report_escapes cs ps) = keys_ok ps"
  by (simp add: keys_ok_def report_escapes_def replay_append replay_messages split: option.splits)

lemma keys_ok_close_key: "keys_ok ps \<Longrightarrow> keys_ok (close_key ps) \<and> hkey (close_key ps) = None"
  by (auto simp: keys_ok_def close_key_def emit_def replay_append split: option.splits)

lemma keys_ok_open_key: "keys_ok ps \<Longrightarrow> open_key e ps p = (res, ps') \<Longrightarrow> keys_ok ps'"
  using keys_ok_close_key [of ps]
  by (auto simp: open_key_def Let_def keys_ok_def emit_def replay_append
      split: option.splits prod.splits sum.splits)

lemma keys_ok_get_line: "get_line e ps = (l, ps') \<Longrightarrow> keys_ok ps' = keys_ok ps"
  by (simp add: keys_ok_def get_line_frame)

lemma keys_ok_updates [simp]:
  "keys_ok (ps\<lparr>reg_version := v1\<rparr>) = keys_ok ps"
  "keys_ok (ps\<lparr>value_name := v4\<rparr>) = keys_ok ps"
  "keys_ok (ps\<lparr>parse_type := v5\<rparr>) = keys_ok ps"
  "keys_ok (ps\<lparr>data_type := v6\<rparr>) = keys_ok ps"
  "keys_ok (ps\<lparr>data := v7\<rparr>) = keys_ok ps"
  "keys_ok (ps\<lparr>data_size := v8\<rparr>) = keys_ok ps"
  "keys_ok (ps\<lparr>state := v9\<rparr>) = keys_ok ps"
  "keys_ok (ps\<lparr>errno_ERANGE := v10\<rparr>) = keys_ok ps"
  by (simp_all add: keys_ok_def)

lemma keys_ok_parse_data_type_from:
  "parse_data_type_from tab ps line = (ok, ps', line') \<Longrightarrow> keys_ok ps' = keys_ok ps"
proof (induction tab ps line rule: parse_data_type_from.induct)
  case (1 ps line)
  then show ?case by simp
next
  case (2 tag len ty pty rest ps line)
  show ?case
  proof (cases "strncmpW tag line len \<noteq> 0")
    case True
    with 2 show ?thesis by simp
  next
    case False
    with "2.prems" show ?thesis
      by (auto simp: Let_def split: if_splits prod.splits)
  qed
qed

lemma keys_ok_step:
  assumes "keys_ok ps" and "parser_funcs (state ps) e ps pos = (ps', pos')"
  shows "keys_ok ps'"
proof (cases "state ps")
  case HEADER
  with assms show ?thesis
    by (auto simp: header_state_def Let_def set_state_def get_line_NULL_def keys_ok_def
        dest!: get_line_frame split: option.splits prod.splits reg_versions.splits if_splits)
next
  case PARSE_WIN31_LINE
  with assms show ?thesis
    by (auto simp: parse_win31_line_state_def Let_def keys_ok_set_state keys_ok_emit_Message
        dest!: keys_ok_get_line dest: keys_ok_open_key split: option.splits prod.splits if_splits)
next
  case LINE_START
  with assms show ?thesis
    by (auto simp: line_start_state_def keys_ok_set_state dest!: keys_ok_get_line
        split: option.splits prod.splits)
next
  case KEY_NAME
  with assms show ?thesis
    by (auto simp: key_name_state_def Let_def keys_ok_set_state keys_ok_emit_Message keys_ok_emit_Fixme
        dest: keys_ok_open_key split: option.splits prod.splits if_splits)
next
  case DEFAULT_VALUE_NAME
  with assms show ?thesis
    by (auto simp: default_value_name_state_def keys_ok_set_state)
next
  case QUOTED_VALUE_NAME
  with assms show ?thesis
    by (auto simp: quoted_value_name_state_def Let_def keys_ok_set_state keys_ok_report
        split: prod.splits if_splits)
next
  case DATA_START
  with assms show ?thesis
    by (auto simp: data_start_state_def Let_def keys_ok_set_state keys_ok_emit_Fixme
        split: prod.splits if_splits)
next
  case DATA_TYPE
  with assms show ?thesis
    by (auto simp: data_type_state_def parse_data_type_def keys_ok_set_state
        dest!: keys_ok_parse_data_type_from split: prod.splits if_splits)
next
  case STRING_DATA
  with assms show ?thesis
    by (auto simp: string_data_state_def Let_def keys_ok_set_state keys_ok_report keys_ok_free
        split: prod.splits if_splits option.splits)
next
  case DWORD_DATA
  with assms show ?thesis
    by (auto simp: dword_data_state_def keys_ok_set_state keys_ok_free
        split: prod.splits if_splits option.splits)
next
  case SET_VALUE
  with assms show ?thesis
    by (auto simp: set_value_state_def Let_def keys_ok_def set_state_def free_parser_data_def emit_def
        replay_append split: prod.splits if_splits option.splits)
qed

lemma keys_ok_initial: "keys_ok (initial_parser e s0 s1 rest)"
  by (simp add: keys_ok_def initial_parser_def)

lemma keys_ok_loop: "keys_ok (reg_import_loop e s0 s1 rest)"
  unfolding reg_import_loop_def
  by (rule parser_loop_invariant [where I = keys_ok]) (auto simp: keys_ok_initial intro: keys_ok_step)

text \<open>
  The handles that are open after a sequence of events, in the order they were created:
  a successful RegCreateKeyExW adds its handle and RegCloseKey removes the one it closes.
\<close>

fun open_keys_after :: "hkey list \<Rightarrow> event list \<Rightarrow> hkey list" where
  "open_keys_after hs [] = hs"
| "open_keys_after hs (CreateKey kc kp (Inr k) # es) = open_keys_after (hs @ [k]) es"
| "open_keys_after hs (CloseKey k # es) = open_keys_after (remove1 k hs) es"
| "open_keys_after hs (ev # es) = open_keys_after hs es"

definition open_keys :: "event list \<Rightarrow> hkey list" where
  "open_keys es = open_keys_after [] es"

lemma replay_open_keys:
  "replay h es = Some h' \<Longrightarrow>
   open_keys_after (case h of None \<Rightarrow> [] | Some k \<Rightarrow> [k]) es = (case h' of None \<Rightarrow> [] | Some k \<Rightarrow> [k])"
proof (induction es arbitrary: h)
  case Nil
  then show ?case by simp
next
  case (Cons ev es)
  show ?case
  proof (cases ev)
    case (CreateKey kc kp r)
    with Cons.prems Cons.IH [of "case r of Inl err \<Rightarrow> None | Inr k \<Rightarrow> Some k"] show ?thesis
      by (cases r) (auto split: if_splits)
  next
    case (CloseKey k)
    with Cons.prems Cons.IH [of None] show ?thesis by (auto split: if_splits)
  next
    case (SetValue k n t d)
    with Cons.prems Cons.IH [of h] show ?thesis by (auto split: if_splits)
  next
    case (Message m)
    with Cons.prems Cons.IH [of h] show ?thesis by auto
  next
    case (Fixme s)
    with Cons.prems Cons.IH [of h] show ?thesis by auto
  qed
qed

lemma replay_take: "replay h es \<noteq> None \<Longrightarrow> replay h (take n es) \<noteq> None"
  using replay_append [of h "take n es" "drop n es"] by (auto split: option.splits)

lemma replay_reg_import: "replay None (snd (reg_import e fp)) \<noteq> None"
proof (cases fp)
  case None
  then show ?thesis by simp
next
  case (Some bs)
  show ?thesis
  proof (cases "\<exists>s0 s1 rest. bs = s0 # s1 # rest")
    case True
    then obtain s0 s1 rest where bs: "bs = s0 # s1 # rest" by blast
    have ok: "keys_ok (reg_import_loop e s0 s1 rest)" by (rule keys_ok_loop)
    from keys_ok_close_key [OF ok] have "keys_ok (close_key (reg_import_loop e s0 s1 rest))"
      by simp
    moreover from ok
    have "keys_ok (emit (Fixme '': operation not yet implemented'') (reg_import_loop e s0 s1 rest))"
      by (simp add: keys_ok_emit_Fixme)
    ultimately show ?thesis using Some bs ok by (auto simp: Let_def keys_ok_def)
  next
    case False
    have "reg_import e (Some bs) = (1, [])"
    proof (cases bs)
      case Nil
      then show ?thesis by simp
    next
      case (Cons b bs')
      with False have "bs' = []" by (cases bs') auto
      with Cons show ?thesis by simp
    qed
    with Some show ?thesis by simp
  qed
qed

lemma open_key_trace:
  "\<exists>created. trace (snd (open_key e ps path)) =
       trace ps @ (case hkey ps of None \<Rightarrow> [] | Some h \<Rightarrow> [CloseKey h]) @ created \<and>
     (created = [] \<or> (\<exists>kc kp r. created = [CreateKey kc kp r]))"
  by (auto simp: open_key_def Let_def close_key_def emit_def
      split: option.splits prod.splits sum.splits)


text \<open>
  Claim C7.  open\_key begins with close\_key: whatever it adds to the trace starts with
  the RegCloseKey of the handle that was open (when one was), followed by at most one
  RegCreateKeyExW; close\_key leaves no handle and releases the path stored with it.  So
  at every instant of an import run (after any number \<open>n\<close> of its events) at most one
  of the handles created so far has not been closed: no handle is left open when the next
  key is opened.
\<close>

theorem open_key_closes_previous_key:
  "(\<exists>created. trace (snd (open_key e ps path)) =
       trace ps @ (case hkey ps of None \<Rightarrow> [] | Some h \<Rightarrow> [CloseKey h]) @ created \<and>
     (created = [] \<or> (\<exists>kc kp r. created = [CreateKey kc kp r]))) \<and>
   hkey (close_key ps) = None \<and>
   key_name (close_key ps) = (case hkey ps of None \<Rightarrow> key_name ps | Some h \<Rightarrow> None) \<and>
   length (open_keys (take n (snd (reg_import e fp)))) \<le> 1"
proof -
  from replay_take [OF replay_reg_import, of n e fp] obtain h' where
    "replay None (take n (snd (reg_import e fp))) = Some h'" by auto
  from replay_open_keys [OF this] have "length (open_keys (take n (snd (reg_import e fp)))) \<le> 1"
    by (simp add: open_keys_def split: option.splits)
  moreover have "hkey (close_key ps) = None"
    by (simp add: close_key_def emit_def split: option.splits)
  moreover have "key_name (close_key ps) = (case hkey ps of None \<Rightarrow> key_name ps | Some h \<Rightarrow> None)"
    by (simp add: close_key_def emit_def split: option.splits)
  ultimately show ?thesis using open_key_trace [of e ps path] by simp
qed

section \<open>A key that cannot be opened\<close>

fun is_created :: "event \<Rightarrow> bool" where
  "is_created (CreateKey kc kp (Inr k)) = True"
| "is_created ev = False"

lemma replay_no_key:
  "list_all (\<lambda>ev. \<not> is_created ev) mid \<Longrightarrow> replay None mid = Some h' \<Longrightarrow> h' = None"
proof (induction mid)
  case Nil
  then show ?case by simp
next
  case (Cons ev mid)
  then show ?case
    by (cases ev) (auto split: if_splits sum.splits)
qed

lemma null_key_after_failure:
  assumes "replay None (pre @ CreateKey kc kp (Inl err) # mid @ SetValue h n t d # post) \<noteq> None"
    and "list_all (\<lambda>ev. \<not> is_created ev) mid"
  shows "h = None"
proof -
  from assms(1) obtain h1 where h1: "replay None pre = Some h1"
    and r1: "replay h1 (CreateKey kc kp (Inl err) # mid @ SetValue h n t d # post) \<noteq> None"
    by (auto simp: replay_append split: option.splits)
  from r1 have r2: "replay None (mid @ SetValue h n t d # post) \<noteq> None"
    by (auto split: if_splits)
  then obtain h2 where h2: "replay None mid = Some h2"
    and r3: "replay h2 (SetValue h n t d # post) \<noteq> None"
    by (auto simp: replay_append split: option.splits)
  from replay_no_key [OF assms(2) h2] r3 show ?thesis by (auto split: if_splits)
qed

lemma key_name_state_continues:
  "key_name_state e ps pos = (ps', pos') \<Longrightarrow> pos' \<noteq> None \<and> state ps' = LINE_START"
  by (auto simp: key_name_state_def Let_def set_state_def split: option.splits prod.splits if_splits)

lemma open_key_failure:
  assumes "open_key e ps path = (res, ps')"
    and "CreateKey kc kp (Inl err) \<in> set (drop (length (trace ps)) (trace ps'))"
  shows "res \<noteq> ERROR_SUCCESS \<and> hkey ps' = None \<and> last (trace ps') = CreateKey kc kp (Inl err)"
  using assms
  by (auto simp: open_key_def Let_def close_key_def emit_def
      split: option.splits prod.splits sum.splits)

lemma key_name_state_reports:
  assumes "key_name_state e ps pos = (ps', pos')"
    and "CreateKey kc kp (Inl err) \<in> set (drop (length (trace ps)) (trace ps'))"
  shows "hkey ps' = None \<and> (\<exists>k. last (trace ps') = Message (STRING_OPEN_KEY_FAILED k))"
proof -
  from assms have nb: "\<not> (deref pos = wc CHR '' '' \<or> deref pos = wc CHR 0x09)"
    by (auto simp: key_name_state_def set_state_def)
  with assms obtain key_end where ke: "strrchrW pos (wc CHR '']'') = Some key_end"
    by (auto simp: key_name_state_def set_state_def split: option.splits)
  define p where "p = pos[key_end := 0]"
  from assms nb ke have nd: "deref p \<noteq> wc CHR ''-''"
    by (auto simp: key_name_state_def set_state_def emit_def Let_def p_def)
  obtain res ps1 where ok: "open_key e ps (Some p) = (res, ps1)"
    by (cases "open_key e ps (Some p)")
  from assms(1) nb ke nd ok have ps': "ps' = set_state
        (if res \<noteq> ERROR_SUCCESS then emit (Message (STRING_OPEN_KEY_FAILED (cstr p))) ps1 else ps1) LINE_START"
    by (auto simp: key_name_state_def Let_def p_def)
  have len: "length (trace ps) \<le> length (trace ps1)"
    using open_key_trace [of e ps "Some p"] ok by auto
  from assms(2) have "CreateKey kc kp (Inl err) \<in> set (drop (length (trace ps)) (trace ps1))"
    using len by (auto simp: ps' set_state_def emit_def split: if_splits)
  from open_key_failure [OF ok this] show ?thesis
    by (simp add: ps' set_state_def emit_def)
qed


text \<open>The states that a value line passes through before SET\_VALUE.\<close>

definition value_line_states :: "parser_state list" where
  "value_line_states =
     [LINE_START, DEFAULT_VALUE_NAME, QUOTED_VALUE_NAME, DATA_START, DATA_TYPE, STRING_DATA,
      DWORD_DATA]"

lemma get_line_hkey:
  "get_line e (ps\<lparr>hkey := h\<rparr>) = (case get_line e ps of (l, ps') \<Rightarrow> (l, ps'\<lparr>hkey := h\<rparr>))"
  by (simp add: get_line_def get_lineA_def get_lineW_def Let_def
      split: option.splits prod.splits)

lemma parse_data_type_from_hkey:
  "parse_data_type_from tab (ps\<lparr>hkey := h\<rparr>) line =
     (case parse_data_type_from tab ps line of (ok, ps', l) \<Rightarrow> (ok, ps'\<lparr>hkey := h\<rparr>, l))"
proof (induction tab ps line rule: parse_data_type_from.induct)
  case (1 ps line)
  show ?case by simp
next
  case (2 tag len ty pty rest ps line)
  show ?case
  proof (cases "strncmpW tag line len \<noteq> 0")
    case True
    with 2 show ?thesis by simp
  next
    case False
    then show ?thesis by (simp add: Let_def split: prod.splits)
  qed
qed

lemma value_line_handlers_ignore_hkey:
  assumes "st \<in> set value_line_states"
  shows "parser_funcs st e (ps\<lparr>hkey := h\<rparr>) pos =
           (case parser_funcs st e ps pos of (ps1, pos1) \<Rightarrow> (ps1\<lparr>hkey := h\<rparr>, pos1))"
proof -
  from assms consider "st = LINE_START" | "st = DEFAULT_VALUE_NAME" | "st = QUOTED_VALUE_NAME"
    | "st = DATA_START" | "st = DATA_TYPE" | "st = STRING_DATA" | "st = DWORD_DATA"
    by (auto simp: value_line_states_def)
  then show ?thesis
  proof cases
    case 1
    then show ?thesis
      by (simp add: line_start_state_def get_line_hkey set_state_def split: prod.splits option.splits)
  next
    case 2
    then show ?thesis by (simp add: default_value_name_state_def set_state_def)
  next
    case 3
    then show ?thesis
      by (simp add: quoted_value_name_state_def Let_def set_state_def report_escapes_def
          split: prod.splits)
  next
    case 4
    then show ?thesis by (simp add: data_start_state_def Let_def set_state_def emit_def)
  next
    case 5
    obtain ok ps1 l where r: "parse_data_type ps pos = (ok, ps1, l)"
      by (cases "parse_data_type ps pos")
    then have r2: "parse_data_type (ps\<lparr>hkey := h\<rparr>) pos = (ok, ps1\<lparr>hkey := h\<rparr>, l)"
      by (simp add: parse_data_type_def parse_data_type_from_hkey)
    from 5 show ?thesis
      by (simp add: data_type_state_def r r2 set_state_def)
  next
    case 6
    then show ?thesis
      by (simp add: string_data_state_def Let_def set_state_def report_escapes_def
          free_parser_data_def split: prod.splits option.splits)
  next
    case 7
    then show ?thesis
      by (simp add: dword_data_state_def set_state_def free_parser_data_def split: option.splits)
  qed
qed

lemma parse_data_type_from_trace:
  "parse_data_type_from tab ps line = (ok, ps', l) \<Longrightarrow> trace ps' = trace ps"
proof (induction tab ps line rule: parse_data_type_from.induct)
  case (1 ps line)
  then show ?case by simp
next
  case (2 tag len ty pty rest ps line)
  show ?case
  proof (cases "strncmpW tag line len \<noteq> 0")
    case True
    with 2 show ?thesis by simp
  next
    case False
    with "2.prems" show ?thesis
      by (auto simp: Let_def split: if_splits prod.splits)
  qed
qed

lemma step_extends:
  assumes "parser_funcs (state ps) e ps pos = (ps', pos')"
  shows "\<exists>new. trace ps' = trace ps @ new"
proof (cases "state ps")
  case HEADER
  with assms show ?thesis
    by (auto simp: header_state_def Let_def set_state_def get_line_NULL_def
        dest!: get_line_frame split: option.splits prod.splits reg_versions.splits if_splits)
next
  case PARSE_WIN31_LINE
  obtain l ps0 where gl: "get_line e ps = (l, ps0)" by (cases "get_line e ps")
  from get_line_frame [OF gl] have t0: "trace ps0 = trace ps" by simp
  from PARSE_WIN31_LINE assms gl t0 open_key_trace [of e ps0] show ?thesis
    by (auto simp: parse_win31_line_state_def Let_def set_state_def emit_def
        split: option.splits prod.splits if_splits) (metis append.assoc snd_conv)+
next
  case LINE_START
  with assms show ?thesis
    by (auto simp: line_start_state_def set_state_def dest!: get_line_frame
        split: option.splits prod.splits)
next
  case KEY_NAME
  with assms open_key_trace [of e ps] show ?thesis
    by (auto simp: key_name_state_def Let_def set_state_def emit_def
        split: option.splits prod.splits if_splits) (metis append.assoc snd_conv)+
next
  case DEFAULT_VALUE_NAME
  with assms show ?thesis
    by (auto simp: default_value_name_state_def set_state_def)
next
  case QUOTED_VALUE_NAME
  with assms show ?thesis
    by (auto simp: quoted_value_name_state_def Let_def set_state_def report_escapes_def
        split: prod.splits if_splits)
next
  case DATA_START
  with assms show ?thesis
    by (auto simp: data_start_state_def Let_def set_state_def emit_def
        split: prod.splits if_splits)
next
  case DATA_TYPE
  with assms show ?thesis
    by (auto simp: data_type_state_def parse_data_type_def set_state_def
        dest!: parse_data_type_from_trace split: prod.splits if_splits)
next
  case STRING_DATA
  with assms show ?thesis
    by (auto simp: string_data_state_def Let_def set_state_def report_escapes_def free_parser_data_def
        split: prod.splits if_splits option.splits)
next
  case DWORD_DATA
  with assms show ?thesis
    by (auto simp: dword_data_state_def set_state_def free_parser_data_def
        split: prod.splits if_splits option.splits)
next
  case SET_VALUE
  with assms show ?thesis
    by (auto simp: set_value_state_def Let_def set_state_def free_parser_data_def emit_def
        split: prod.splits if_splits option.splits)
qed

lemma parser_loop_extends: "\<exists>rest. trace (parser_loop e ps pos) = trace ps @ rest"
proof (induction e ps pos rule: parser_loop.induct)
  case (1 e ps)
  show ?case by (simp add: parser_loop.simps)
next
  case (2 e ps pos)
  obtain ps' pos' where step: "parser_funcs (state ps) e ps pos = (ps', pos')"
    by (cases "parser_funcs (state ps) e ps pos")
  from "2.IH" [OF step [symmetric]] obtain rest where
    "trace (parser_loop e ps' pos') = trace ps' @ rest" by blast
  moreover from step_extends [OF step] obtain new where "trace ps' = trace ps @ new" by blast
  ultimately show ?case using step by (simp add: parser_loop.simps)
qed

lemma set_value_is_issued:
  assumes "state ps = SET_VALUE"
  shows "\<exists>rest. trace (parser_loop e ps (Some pos)) =
           trace ps @ SetValue (hkey ps) (value_name ps) (data_type ps)
                        (data_bytes (data ps) (data_size ps)) # rest"
proof -
  obtain ps' pos' where step: "set_value_state e ps pos = (ps', pos')"
    by (cases "set_value_state e ps pos")
  then have t: "trace ps' = trace ps @ [SetValue (hkey ps) (value_name ps) (data_type ps)
                        (data_bytes (data ps) (data_size ps))]"
    by (auto simp: set_value_state_def Let_def set_state_def free_parser_data_def emit_def
        split: if_splits)
  from parser_loop_extends [of e ps' pos'] obtain rest where
    "trace (parser_loop e ps' pos') = trace ps' @ rest" by blast
  with assms step t show ?thesis by (simp add: parser_loop.simps)
qed

lemma win31_failure:
  assumes "parse_win31_line_state e ps pos = (ps', pos')"
    and "CreateKey kc kp (Inl err) \<in> set (drop (length (trace ps)) (trace ps'))"
  shows "hkey ps' = None \<and> state ps' = state ps \<and> pos' \<noteq> None \<and>
         (\<exists>k. last (trace ps') = Message (STRING_OPEN_KEY_FAILED k))"
proof -
  obtain l ps0 where gl: "get_line e ps = (l, ps0)" by (cases "get_line e ps")
  from get_line_frame [OF gl] have t0: "trace ps0 = trace ps" and s0: "state ps0 = state ps"
    by simp_all
  from assms gl t0 obtain line where l: "l = Some line"
    by (cases l) (auto simp: parse_win31_line_state_def)
  from assms gl l t0 have hk: "strncmpW line hkcr 17 = 0"
    by (auto simp: parse_win31_line_state_def split: if_splits)
  define line' where "line' = line[win31_key_end line := 0]"
  obtain res ps1 where ok: "open_key e ps0 (Some line') = (res, ps1)"
    by (cases "open_key e ps0 (Some line')")
  have len: "length (trace ps0) \<le> length (trace ps1)"
    using open_key_trace [of e ps0 "Some line'"] ok by auto
  have st1: "state ps1 = state ps0"
    using ok by (auto simp: open_key_def Let_def close_key_def emit_def
        split: option.splits prod.splits sum.splits)
  show ?thesis
  proof (cases "res = ERROR_SUCCESS")
    case True
    with assms(1) gl l hk ok have "trace ps' = trace ps1"
      by (auto simp: parse_win31_line_state_def Let_def line'_def set_state_def)
    with assms(2) t0 have "CreateKey kc kp (Inl err) \<in> set (drop (length (trace ps0)) (trace ps1))"
      by simp
    from open_key_failure [OF ok this] True show ?thesis by simp
  next
    case False
    with assms(1) gl l hk ok have ps': "ps' = emit (Message (STRING_OPEN_KEY_FAILED (cstr line'))) ps1"
      and pos': "pos' = Some line'"
      by (simp_all add: parse_win31_line_state_def Let_def line'_def)
    from assms(2) t0 len have "CreateKey kc kp (Inl err) \<in> set (drop (length (trace ps0)) (trace ps1))"
      by (auto simp: ps' emit_def)
    from open_key_failure [OF ok this] show ?thesis
      by (simp add: ps' pos' emit_def st1 s0)
  qed
qed


text \<open>
  A run against a registry that refuses every key: the key line is reported, and the value
  line behind it is still written, with the NULL handle.
\<close>

theorem value_written_after_failed_open_counterexample:
  "snd (reg_import failing_env (Some (82 # 69 #
      ascii ''GEDIT4'' @ [13, 10] @ ascii ''[HKEY_CURRENT_USER'' @ [0x5C] @ ascii ''Foo]'' @ [13, 10]
       @ ascii ''@=dword:0000002A'' @ [13, 10]))) =
   [CreateKey 2 (Some (wide ''Foo'')) (Inl 5),
    Message (STRING_OPEN_KEY_FAILED (wide ''HKEY_CURRENT_USER'' @ [0x5C] @ wide ''Foo'')),
    SetValue None None 4 [42, 0, 0, 0],
    Fixme '': operation not yet implemented'']"
  by (simp add: run_simps)

text \<open>
  Claim C8, with the writes corrected.  The claim says that after RegCreateKeyExW has
  failed no value write is emitted until a later key line opens a key.  What holds, conjunct
  by conjunct: key\_name\_state always returns a position and goes back to LINE\_START (the
  run continues); when the RegCreateKeyExW it issues fails, the parser is left with no key
  and the last event is the message STRING\_OPEN\_KEY\_FAILED; the handlers that parse a
  value line neither read nor change \<open>hkey\<close>, so a value line is parsed without a key
  as it is with one; once a value line has reached SET\_VALUE the run issues its
  RegSetValueExW with the handle the parser holds, whatever it is; in the trace of any run,
  a RegSetValueExW that follows a failed RegCreateKeyExW with no successful one in between
  carries the NULL handle; and parse\_win31\_line\_state, whose line names the key and
  the value together, reports a failed RegCreateKeyExW and stays in its state without
  preparing a write.
\<close>

theorem failed_open_is_reported_and_values_carry_no_key:
  "(key_name_state e ps pos = (ps', pos') \<longrightarrow> pos' \<noteq> None \<and> state ps' = LINE_START) \<and>
   (key_name_state e ps pos = (ps', pos') \<and>
      CreateKey kc kp (Inl err) \<in> set (drop (length (trace ps)) (trace ps')) \<longrightarrow>
      hkey ps' = None \<and> (\<exists>k. last (trace ps') = Message (STRING_OPEN_KEY_FAILED k))) \<and>
   (st \<in> set value_line_states \<longrightarrow>
      parser_funcs st e (ps\<lparr>hkey := h0\<rparr>) pos =
        (case parser_funcs st e ps pos of (ps1, pos1) \<Rightarrow> (ps1\<lparr>hkey := h0\<rparr>, pos1))) \<and>
   (state ps = SET_VALUE \<longrightarrow>
      (\<exists>rest. trace (parser_loop e ps (Some pos)) =
         trace ps @ SetValue (hkey ps) (value_name ps) (data_type ps)
                      (data_bytes (data ps) (data_size ps)) # rest)) \<and>
   (snd (reg_import e fp) = pre @ CreateKey kc' kp' (Inl err') # mid @ SetValue h n t d # post \<and>
      list_all (\<lambda>ev. \<not> is_created ev) mid \<longrightarrow> h = None) \<and>
   (parse_win31_line_state e ps pos = (ps', pos') \<and>
      CreateKey kc kp (Inl err) \<in> set (drop (length (trace ps)) (trace ps')) \<longrightarrow>
      hkey ps' = None \<and> state ps' = state ps \<and> pos' \<noteq> None \<and>
      (\<exists>k. last (trace ps') = Message (STRING_OPEN_KEY_FAILED k)))"
proof (intro conjI impI)
  assume "key_name_state e ps pos = (ps', pos')"
  from key_name_state_continues [OF this] show "pos' \<noteq> None" "state ps' = LINE_START"
    by simp_all
next
  assume a: "key_name_state e ps pos = (ps', pos') \<and>
      CreateKey kc kp (Inl err) \<in> set (drop (length (trace ps)) (trace ps'))"
  from key_name_state_reports [OF conjunct1 [OF a] conjunct2 [OF a]]
  show "hkey ps' = None" "\<exists>k. last (trace ps') = Message (STRING_OPEN_KEY_FAILED k)"
    by simp_all
next
  assume "st \<in> set value_line_states"
  then show "parser_funcs st e (ps\<lparr>hkey := h0\<rparr>) pos =
        (case parser_funcs st e ps pos of (ps1, pos1) \<Rightarrow> (ps1\<lparr>hkey := h0\<rparr>, pos1))"
    by (rule value_line_handlers_ignore_hkey)
next
  assume "state ps = SET_VALUE"
  then show "\<exists>rest. trace (parser_loop e ps (Some pos)) =
         trace ps @ SetValue (hkey ps) (value_name ps) (data_type ps)
                      (data_bytes (data ps) (data_size ps)) # rest"
    by (rule set_value_is_issued)
next
  assume a: "snd (reg_import e fp) = pre @ CreateKey kc' kp' (Inl err') # mid @ SetValue h n t d # post \<and>
      list_all (\<lambda>ev. \<not> is_created ev) mid"
  with replay_reg_import [of e fp]
  have "replay None (pre @ CreateKey kc' kp' (Inl err') # mid @ SetValue h n t d # post) \<noteq> None"
    by simp
  from null_key_after_failure [OF this conjunct2 [OF a]] show "h = None" .
next
  assume a: "parse_win31_line_state e ps pos = (ps', pos') \<and>
      CreateKey kc kp (Inl err) \<in> set (drop (length (trace ps)) (trace ps'))"
  from win31_failure [OF conjunct1 [OF a] conjunct2 [OF a]]
  show "hkey ps' = None" "state ps' = state ps" "pos' \<noteq> None"
    "\<exists>k. last (trace ps') = Message (STRING_OPEN_KEY_FAILED k)"
    by simp_all
qed


theorem failed_open_is_reported_and_values_carry_no_key_witness:
  "snd (reg_import failing_env (Some (82 # 69 #
      ascii ''GEDIT4'' @ [13, 10] @ ascii ''[HKEY_CURRENT_USER'' @ [0x5C] @ ascii ''Foo]'' @ [13, 10]
       @ ascii ''@=dword:0000002A'' @ [13, 10]))) =
   [] @ CreateKey 2 (Some (wide ''Foo'')) (Inl 5) #
     [Message (STRING_OPEN_KEY_FAILED (wide ''HKEY_CURRENT_USER'' @ [0x5C] @ wide ''Foo''))] @
     SetValue None None 4 [42, 0, 0, 0] # [Fixme '': operation not yet implemented''] \<and>
   list_all (\<lambda>ev. \<not> is_created ev)
     [Message (STRING_OPEN_KEY_FAILED (wide ''HKEY_CURRENT_USER'' @ [0x5C] @ wide ''Foo''))] \<and>
   (None :: hkey option) = None \<and>
   state ((initial_parser failing_env 82 69 [])
            \<lparr>data_type := 4, data := HeapDword (Some 42), data_size := 4, state := SET_VALUE\<rparr>) =
     SET_VALUE \<and>
   (\<exists>rest. trace (parser_loop failing_env
        ((initial_parser failing_env 82 69 [])
           \<lparr>data_type := 4, data := HeapDword (Some 42), data_size := 4, state := SET_VALUE\<rparr>)
        (Some [])) =
      SetValue None None 4 [42, 0, 0, 0] # rest)"
proof -
  have run: "snd (reg_import failing_env (Some (82 # 69 #
      ascii ''GEDIT4'' @ [13, 10] @ ascii ''[HKEY_CURRENT_USER'' @ [0x5C] @ ascii ''Foo]'' @ [13, 10]
       @ ascii ''@=dword:0000002A'' @ [13, 10]))) =
   [] @ CreateKey 2 (Some (wide ''Foo'')) (Inl 5) #
     [Message (STRING_OPEN_KEY_FAILED (wide ''HKEY_CURRENT_USER'' @ [0x5C] @ wide ''Foo''))] @
     SetValue None None 4 [42, 0, 0, 0] # [Fixme '': operation not yet implemented'']"
    by (simp add: run_simps)
  have mid: "list_all (\<lambda>ev. \<not> is_created ev)
     [Message (STRING_OPEN_KEY_FAILED (wide ''HKEY_CURRENT_USER'' @ [0x5C] @ wide ''Foo''))]"
    by simp
  define ps where "ps = (initial_parser failing_env 82 69 [])
           \<lparr>data_type := 4, data := HeapDword (Some 42), data_size := 4, state := SET_VALUE\<rparr>"
  have st: "state ps = SET_VALUE" by (simp add: ps_def)
  have fields: "trace ps = []" "hkey ps = None" "value_name ps = None" "data_type ps = 4"
    "data_bytes (data ps) (data_size ps) = [42, 0, 0, 0]"
    by (simp_all add: ps_def initial_parser_def data_bytes_def dword_bytes_def)
  note inst = failed_open_is_reported_and_values_carry_no_key
    [where e = failing_env and ps = ps and pos = "[]"]
  from inst [THEN conjunct2, THEN conjunct2, THEN conjunct2, THEN conjunct2, THEN conjunct1, THEN mp,
     OF conjI [OF run mid]]
  have none: "(None :: hkey option) = None" .
  from inst [THEN conjunct2, THEN conjunct2, THEN conjunct2, THEN conjunct1, THEN mp, OF st]
  have "\<exists>rest. trace (parser_loop failing_env ps (Some [])) = SetValue None None 4 [42, 0, 0, 0] # rest"
    unfolding fields by simp
  with run mid none st show ?thesis unfolding ps_def by blast
qed

section \<open>The payload of a dword\<close>

text \<open>
  The form that the specification gives for the payload of a dword: optional spaces and
  tabs, 0 to 8 hexadecimal digits, optional spaces and tabs, and then the end of the text
  or a comment that starts with a semicolon.
\<close>

definition hex32_form :: "wstr \<Rightarrow> bool" where
  "hex32_form s =
     (let t = dropWhile is_blank s;
          ds = takeWhile isxdigitW t;
          r = dropWhile is_blank (dropWhile isxdigitW t)
      in length ds \<le> 8 \<and> (r = [] \<or> hd r = wc CHR '';''))"

lemma is_blank_0 [simp]: "\<not> is_blank 0"
  by (simp add: is_blank_def wc_def)

lemma isxdigitW_0 [simp]: "\<not> isxdigitW 0"
  by (simp add: isxdigitW_def)

lemma cstr_dropWhile: "\<not> P 0 \<Longrightarrow> cstr (dropWhile P s) = dropWhile P (cstr s)"
  by (induction s) auto

lemma takeWhile_cstr: "\<not> P 0 \<Longrightarrow> takeWhile P (cstr s) = takeWhile P s"
  by (induction s) auto

lemma deref_0_iff: "(deref s = 0) = (cstr s = [])"
  by (cases s) auto

lemma deref_eq_iff: "c \<noteq> 0 \<Longrightarrow> (deref s = c) = (cstr s \<noteq> [] \<and> hd (cstr s) = c)"
  by (cases s) auto

lemma drop_takeWhile: "drop (length (takeWhile P s)) s = dropWhile P s"
  by (simp add: dropWhile_eq_drop)


text \<open>The form, spelled out: the text is blanks, at most eight digits, blanks and a
  comment or nothing.\<close>

lemma blank_not_xdigit: "is_blank c \<Longrightarrow> \<not> isxdigitW c"
  by (auto simp: is_blank_def isxdigitW_def wc_def)

lemma semicolon_plain: "\<not> is_blank (wc CHR '';'')" "\<not> isxdigitW (wc CHR '';'')"
  by (simp_all add: is_blank_def isxdigitW_def wc_def)

lemma comment_start:
  assumes "c = [] \<or> hd c = wc CHR '';''"
  shows "dropWhile is_blank c = c" "takeWhile isxdigitW c = []" "dropWhile isxdigitW c = c"
  using assms semicolon_plain by (cases c; auto)+

lemma blanks_then_comment:
  assumes "list_all is_blank b2" and "c = [] \<or> hd c = wc CHR '';''"
  shows "dropWhile is_blank (b2 @ c) = c" "takeWhile isxdigitW (b2 @ c) = []"
    "dropWhile isxdigitW (b2 @ c) = b2 @ c"
proof -
  show "dropWhile is_blank (b2 @ c) = c"
    using assms comment_start(1) [OF assms(2)] by (simp add: dropWhile_append list_all_iff)
  show "takeWhile isxdigitW (b2 @ c) = []" "dropWhile isxdigitW (b2 @ c) = b2 @ c"
    using assms(1) comment_start(2,3) [OF assms(2)] blank_not_xdigit
    by (cases b2; simp)+
qed

lemma hex32_form_iff:
  "hex32_form s =
     (\<exists>b1 ds b2 c. s = b1 @ ds @ b2 @ c \<and> list_all is_blank b1 \<and> list_all isxdigitW ds \<and>
        length ds \<le> 8 \<and> list_all is_blank b2 \<and> (c = [] \<or> hd c = wc CHR '';''))"
proof
  assume h: "hex32_form s"
  define t where "t = dropWhile is_blank s"
  define u where "u = dropWhile isxdigitW t"
  have "s = takeWhile is_blank s @ takeWhile isxdigitW t @ takeWhile is_blank u @ dropWhile is_blank u"
    by (simp add: t_def u_def)
  moreover have "list_all is_blank (takeWhile is_blank s)" "list_all isxdigitW (takeWhile isxdigitW t)"
    "list_all is_blank (takeWhile is_blank u)"
    by (auto simp: list_all_iff dest: set_takeWhileD)
  moreover from h have "length (takeWhile isxdigitW t) \<le> 8"
    "dropWhile is_blank u = [] \<or> hd (dropWhile is_blank u) = wc CHR '';''"
    by (simp_all add: hex32_form_def Let_def t_def u_def)
  ultimately show "\<exists>b1 ds b2 c. s = b1 @ ds @ b2 @ c \<and> list_all is_blank b1 \<and> list_all isxdigitW ds \<and>
        length ds \<le> 8 \<and> list_all is_blank b2 \<and> (c = [] \<or> hd c = wc CHR '';'')"
    by blast
next
  assume "\<exists>b1 ds b2 c. s = b1 @ ds @ b2 @ c \<and> list_all is_blank b1 \<and> list_all isxdigitW ds \<and>
        length ds \<le> 8 \<and> list_all is_blank b2 \<and> (c = [] \<or> hd c = wc CHR '';'')"
  then obtain b1 ds b2 c where s: "s = b1 @ ds @ b2 @ c" and b1: "list_all is_blank b1"
    and ds: "list_all isxdigitW ds" and len: "length ds \<le> 8" and b2: "list_all is_blank b2"
    and c: "c = [] \<or> hd c = wc CHR '';''"
    by blast
  note bc = blanks_then_comment [OF b2 c]
  show "hex32_form s"
  proof (cases ds)
    case Nil
    have t: "dropWhile is_blank s = c"
      using b1 bc(1) by (simp add: s Nil dropWhile_append list_all_iff)
    show ?thesis
      unfolding hex32_form_def Let_def t using c comment_start [OF c] by simp
  next
    case (Cons d ds')
    with ds have "\<not> is_blank d" using blank_not_xdigit by auto
    then have t: "dropWhile is_blank s = ds @ b2 @ c"
      using b1 by (simp add: s Cons dropWhile_append list_all_iff)
    have tw: "takeWhile isxdigitW (ds @ b2 @ c) = ds"
      using ds bc(2) by (simp add: takeWhile_append list_all_iff)
    have dw: "dropWhile isxdigitW (ds @ b2 @ c) = b2 @ c"
      using ds bc(3) by (simp add: dropWhile_append list_all_iff)
    show ?thesis
      unfolding hex32_form_def Let_def t tw dw bc(1) using len c by simp
  qed
qed

text \<open>
  The empty payload has the form (no digit, no comment), and convert\_hex\_to\_dword
  refuses it, by the test \<^verbatim>\<open>if (!*str) goto error;\<close>.
\<close>

theorem empty_dword_counterexample:
  "hex32_form [] \<and> convert_hex_to_dword [] = None"
  by (simp add: hex32_form_def convert_hex_to_dword_def)

text \<open>
  Claim C6, with the empty payload taken out.  The claim says that
  convert\_hex\_to\_dword accepts exactly the texts of the form above.  What holds: it
  accepts exactly the texts of that form that hold something other than spaces and tabs
  (so a text with no digit is accepted only when a comment follows); nine digits or more
  and any other trailing text are rejected.
\<close>

theorem convert_hex_to_dword_accepts:
  "(convert_hex_to_dword s \<noteq> None) =
     (hex32_form (cstr s) \<and> dropWhile is_blank (cstr s) \<noteq> [])"
proof -
  define t where "t = dropWhile is_blank s"
  define p where "p = dropWhile isxdigitW t"
  define p' where "p' = dropWhile is_blank p"
  have ct: "cstr t = dropWhile is_blank (cstr s)"
    by (simp add: t_def cstr_dropWhile)
  have tw: "takeWhile isxdigitW t = takeWhile isxdigitW (cstr t)"
    by (simp add: takeWhile_cstr)
  have cp: "cstr p = dropWhile isxdigitW (cstr t)"
    by (simp add: p_def cstr_dropWhile)
  have cp': "cstr p' = dropWhile is_blank (cstr p)"
    by (simp add: p'_def cstr_dropWhile)
  have semi: "wc CHR '';'' \<noteq> 0" by (simp add: wc_def)
  have "(convert_hex_to_dword s \<noteq> None) =
      (deref t \<noteq> 0 \<and> \<not> 8 < length (takeWhile isxdigitW t) \<and>
       \<not> (deref p' \<noteq> 0 \<and> deref p' \<noteq> wc CHR '';''))"
    unfolding convert_hex_to_dword_def Let_def skip_blanks_eq drop_takeWhile t_def p_def p'_def
    by simp
  also have "\<dots> = (cstr t \<noteq> [] \<and> length (takeWhile isxdigitW (cstr t)) \<le> 8 \<and>
       (cstr p' = [] \<or> hd (cstr p') = wc CHR '';''))"
    unfolding deref_0_iff deref_eq_iff [OF semi] tw by auto
  also have "\<dots> = (hex32_form (cstr s) \<and> dropWhile is_blank (cstr s) \<noteq> [])"
    unfolding hex32_form_def Let_def cp' cp ct by auto
  finally show ?thesis .
qed


section \<open>The generic hex form\<close>

lemma xdigit_val_le: "isxdigitW c \<Longrightarrow> xdigit_val c \<le> 15"
  by (auto simp: isxdigitW_def xdigit_val_def word_le_nat_alt)

lemma hex_value_bound:
  "list_all isxdigitW ds \<Longrightarrow> hex_value acc ds < (acc + 1) * 16 ^ length ds"
proof (induction ds arbitrary: acc)
  case Nil
  show ?case by simp
next
  case (Cons c cs)
  then have c: "xdigit_val c \<le> 15" and cs: "list_all isxdigitW cs"
    by (simp_all add: xdigit_val_le)
  have "hex_value (acc * 16 + xdigit_val c) cs < (acc * 16 + xdigit_val c + 1) * 16 ^ length cs"
    by (rule Cons.IH [OF cs])
  also have "\<dots> \<le> (acc * 16 + 16) * 16 ^ length cs"
    using c by (intro mult_right_mono) auto
  also have "\<dots> = (acc + 1) * 16 ^ length (c # cs)"
    by (simp add: algebra_simps)
  finally show ?case by simp
qed

lemma hex_value_dword:
  assumes "list_all isxdigitW ds" "length ds \<le> 8"
  shows "hex_value 0 ds < 2 ^ 32"
proof -
  have "hex_value 0 ds < 16 ^ length ds"
    using hex_value_bound [OF assms(1), of 0] by simp
  also have "(16::nat) ^ length ds \<le> 16 ^ 8"
    using assms(2) by (intro power_increasing) auto
  finally show ?thesis by simp
qed

lemma xdigit_facts:
  assumes "isxdigitW c"
  shows "\<not> isspaceW c" "c \<noteq> 0" "c \<noteq> wc CHR ''-''" "c \<noteq> wc CHR ''+''"
    "tolowerW c \<noteq> wc CHR ''x''"
  using assms
  by (auto simp: isxdigitW_def isspaceW_def tolowerW_def wc_def word_le_nat_alt
      split: if_splits)


lemma wcstoul_digits:
  assumes ne: "ds \<noteq> []" and hex: "list_all isxdigitW ds" and len: "length ds \<le> 8"
    and stop: "\<not> isxdigitW (deref r)" "tolowerW (deref r) \<noteq> wc CHR ''x''"
  shows "wcstoul (ds @ r) = (of_nat (hex_value 0 ds), r, False)"
proof -
  from ne obtain d ds' where ds: "ds = d # ds'" by (cases ds) auto
  with hex have d: "isxdigitW d" and ds': "list_all isxdigitW ds'" by simp_all
  note df = xdigit_facts [OF d]
  have s1: "dropWhile isspaceW (ds @ r) = ds @ r"
    using df(1) by (simp add: ds)
  have second: "tolowerW (deref (tl (ds @ r))) \<noteq> wc CHR ''x''"
  proof (cases ds')
    case Nil
    with stop(2) show ?thesis by (simp add: ds)
  next
    case (Cons d2 ds2)
    with ds' have "isxdigitW d2" by simp
    from xdigit_facts(5) [OF this] Cons show ?thesis by (simp add: ds)
  qed
  have tw: "takeWhile isxdigitW (ds @ r) = ds"
  proof -
    have "takeWhile isxdigitW (ds @ r) = ds @ takeWhile isxdigitW r"
      using hex by (simp add: takeWhile_append2 list_all_iff)
    moreover have "takeWhile isxdigitW r = []"
      using stop(1) by (cases r) auto
    ultimately show ?thesis by simp
  qed
  have small: "\<not> (2::nat) ^ 32 \<le> hex_value 0 ds"
    using hex_value_dword [OF hex len] by simp
  have hd: "deref (ds @ r) = d" by (simp add: ds)
  show ?thesis
    unfolding wcstoul_def s1 Let_def
    using df(3,4) second small ne by (simp add: hd tw)
qed

text \<open>The data of a value line in the generic form: hex(, the digits of the type, ):
  and the payload.\<close>

definition generic_hex_line :: "wstr \<Rightarrow> wstr \<Rightarrow> wstr" where
  "generic_hex_line ds payload = wide ''hex('' @ ds @ wide ''):'' @ payload"

lemma parse_data_type_generic:
  assumes ne: "ds \<noteq> []" and hex: "list_all isxdigitW ds" and len: "length ds \<le> 8"
    and range: "word_of_nat (hex_value 0 ds) \<noteq> (0xffffffff :: dword) \<or> \<not> errno_ERANGE ps"
  shows "parse_data_type ps (generic_hex_line ds payload) =
           (True, ps\<lparr>parse_type := REG_BINARY, data_type := of_nat (hex_value 0 ds)\<rparr>, payload)"
proof -
  from ne obtain d ds' where ds: "ds = d # ds'" by (cases ds) auto
  with hex have d: "isxdigitW d" and ds': "list_all isxdigitW ds'" by simp_all
  note df = xdigit_facts [OF d]
  have close: "\<not> isxdigitW (deref (wide ''):'' @ payload))"
    "tolowerW (deref (wide ''):'' @ payload)) \<noteq> wc CHR ''x''"
    by (simp_all add: wide_def wc_def isxdigitW_def tolowerW_def)
  have w: "wcstoul (ds @ wide ''):'' @ payload) =
      (of_nat (hex_value 0 ds), wide ''):'' @ payload, False)"
    by (rule wcstoul_digits [OF ne hex len close])
  have second: "tolowerW (deref (tl (ds @ wide ''):'' @ payload))) \<noteq> wc CHR ''x''"
  proof (cases ds')
    case Nil
    then show ?thesis by (simp add: ds wide_def wc_def tolowerW_def)
  next
    case (Cons d2 ds2)
    with ds' have "isxdigitW d2" by simp
    from xdigit_facts(5) [OF this] Cons show ?thesis by (simp add: ds)
  qed
  have first: "deref (ds @ wide ''):'' @ payload) \<noteq> 0"
    using df(2) by (simp add: ds)
  have line: "generic_hex_line ds payload = 104 # 101 # 120 # 40 # (ds @ wide ''):'' @ payload)"
    by (simp add: generic_hex_line_def wide_def wc_def)
  have after: "drop 2 (wide ''):'' @ payload) = payload" "deref (wide ''):'' @ payload) = wc CHR '')''"
    "deref (tl (wide ''):'' @ payload)) = wc CHR '':''"
    by (simp_all add: wide_def)
  show ?thesis
    unfolding parse_data_type_def data_types_def line
    using first second range
    by (simp add: strncmpW_numeral wide_def wc_def Let_def w [unfolded wide_def wc_def, simplified]
        after [unfolded wide_def wc_def, simplified] REG_BINARY_def REG_SZ_def REG_DWORD_def)
qed


text \<open>
  A run with the value line "Name"=hex(7):41,00,42,00 under a key that opens: the key is
  created and no value is written.
\<close>

theorem generic_hex_form_counterexample:
  "snd (reg_import example_env (Some (82 # 69 #
      ascii ''GEDIT4'' @ [13, 10] @ ascii ''[HKEY_CURRENT_USER'' @ [0x5C] @ ascii ''Foo]'' @ [13, 10]
       @ [0x22] @ ascii ''Name'' @ [0x22] @ ascii ''=hex(7):41,00,42,00'' @ [13, 10]))) =
   [CreateKey 2 (Some (wide ''Foo'')) (Inr 100), Fixme '': operation not yet implemented'']"
  by (simp add: run_simps)

text \<open>
  Claim C4, with the decoding and the commit taken out.  The claim says that a value line
  whose data is hex(N): with a valid tag is decoded and committed through the state
  SET\_VALUE, as the string and dword forms are.  The file holds no decoder for the
  payload: data\_type\_state sends every REG\_BINARY parse type back to LINE\_START, as in
  the run above.  What holds: for a tag of one to eight hexadecimal digits, other than the
  value 0xffffffff read while errno is ERANGE, the handler stages the declared type N with
  the parse type REG\_BINARY, leaves \<open>data\<close> and the trace as they are, returns the
  position of the payload and goes back to LINE\_START.
\<close>

theorem generic_hex_form_is_not_committed:
  assumes "ds \<noteq> []" and "list_all isxdigitW ds" and "length ds \<le> 8"
    and "word_of_nat (hex_value 0 ds) \<noteq> (0xffffffff :: dword) \<or> \<not> errno_ERANGE ps"
  shows "data_type_state e ps (generic_hex_line ds payload) =
           (ps\<lparr>parse_type := REG_BINARY, data_type := of_nat (hex_value 0 ds), state := LINE_START\<rparr>,
            Some payload)"
  unfolding data_type_state_def parse_data_type_generic [OF assms]
  by (simp add: set_state_def REG_BINARY_def REG_SZ_def REG_DWORD_def)

theorem generic_hex_form_is_not_committed_witness:
  "wide ''7'' \<noteq> [] \<and> list_all isxdigitW (wide ''7'') \<and> length (wide ''7'') \<le> 8 \<and>
   \<not> errno_ERANGE (initial_parser example_env 82 69 []) \<and>
   data_type_state example_env (initial_parser example_env 82 69 [])
       (generic_hex_line (wide ''7'') (wide ''41,00,42,00'')) =
     ((initial_parser example_env 82 69 [])
        \<lparr>parse_type := REG_BINARY, data_type := 7, state := LINE_START\<rparr>,
      Some (wide ''41,00,42,00''))"
proof -
  have h1: "wide ''7'' \<noteq> []" by (simp add: wide_def)
  have h2: "list_all isxdigitW (wide ''7'')" by (simp add: wide_def wc_def isxdigitW_def)
  have h3: "length (wide ''7'') \<le> 8" by (simp add: wide_def)
  have h4: "\<not> errno_ERANGE (initial_parser example_env 82 69 [])"
    by (simp add: initial_parser_def example_env_def)
  have v: "word_of_nat (hex_value 0 (wide ''7'')) = (7 :: dword)"
    by (simp add: wide_def wc_def xdigit_val_def)
  from generic_hex_form_is_not_committed [OF h1 h2 h3 disjI2 [OF h4], of example_env "wide ''41,00,42,00''"]
    h1 h2 h3 h4 show ?thesis
    by (simp only: v simp_thms)
qed


text \<open>
  The case left out: parse\_data\_type tests errno after wcstoul and never resets it, so
  once a tag has not fitted 32 bits the tag ffffffff is refused for the rest of the import.
\<close>

lemma overflowing_tag_sets_errno:
  "data_type_state e ps (generic_hex_line (wide ''100000000'') payload) =
     (ps\<lparr>parse_type := REG_BINARY, data_type := REG_BINARY, errno_ERANGE := True,
         state := LINE_START\<rparr>,
      Some (wide ''100000000):'' @ payload))"
  by (simp add: data_type_state_def parse_data_type_def data_types_def generic_hex_line_def
      strncmpW_numeral wide_def wc_def Let_def wcstoul_def isspaceW_def isxdigitW_def tolowerW_def
      xdigit_val_def set_state_def REG_BINARY_def REG_SZ_def REG_DWORD_def)

lemma tag_refused_while_errno_is_ERANGE:
  "data_type_state e (ps\<lparr>errno_ERANGE := True\<rparr>) (generic_hex_line (wide ''ffffffff'') payload) =
     (ps\<lparr>parse_type := REG_BINARY, data_type := REG_BINARY, errno_ERANGE := True,
         state := LINE_START\<rparr>,
      Some (wide ''ffffffff):'' @ payload))"
  by (simp add: data_type_state_def parse_data_type_def data_types_def generic_hex_line_def
      strncmpW_numeral wide_def wc_def Let_def wcstoul_def isspaceW_def isxdigitW_def tolowerW_def
      xdigit_val_def set_state_def REG_BINARY_def REG_SZ_def REG_DWORD_def)

text \<open>The DWORD that convert\_hex\_to\_dword stores is the value of the digits.\<close>

lemma convert_hex_to_dword_value:
  assumes "convert_hex_to_dword s = Some v"
  shows "v = of_nat (hex_value 0 (takeWhile isxdigitW (skip_blanks s)))"
proof -
  define ds where "ds = takeWhile isxdigitW (skip_blanks s)"
  have hex: "list_all isxdigitW ds"
    by (auto simp: ds_def list_all_iff dest: set_takeWhileD)
  from assms have len: "length ds \<le> 8"
    and v: "v = fst (wcstoul (take (length ds) (skip_blanks s)))"
    by (auto simp: convert_hex_to_dword_def Let_def ds_def split: if_splits)
  have tk: "take (length ds) (skip_blanks s) = ds"
    unfolding ds_def by (metis takeWhile_eq_take)
  show ?thesis
  proof (cases "ds = []")
    case True
    then show ?thesis
      unfolding v tk ds_def [symmetric] by (simp add: wcstoul_def)
  next
    case False
    have "wcstoul (ds @ []) = (of_nat (hex_value 0 ds), [], False)"
      by (rule wcstoul_digits [OF False hex len]) (simp_all add: isxdigitW_def tolowerW_def wc_def)
    then show ?thesis
      unfolding v tk ds_def [symmetric] by simp
  qed
qed

section \<open>Unescaping\<close>

text \<open>
  Unescaping as the specification words it, on the text of the string: the result is
  \<open>None\<close> when no unescaped double quote ends the text, and otherwise the unescaped
  characters, the text behind the closing quote and the escaped characters that get a
  diagnostic.  An escaped n, r or 0 stands for newline, carriage return or NUL; any other
  escaped character stands for itself, and all but backslash and quote are reported.
\<close>

definition escape_char :: "wchar \<Rightarrow> wchar" where
  "escape_char d =
     (if d = wc CHR ''n'' then 10 else if d = wc CHR ''r'' then 13
      else if d = wc CHR ''0'' then 0 else d)"

definition known_escape :: "wchar \<Rightarrow> bool" where
  "known_escape d =
     (d = wc CHR ''n'' \<or> d = wc CHR ''r'' \<or> d = wc CHR ''0'' \<or> d = wc CHR 0x5C \<or> d = wc CHR 0x22)"

fun unescape_spec :: "wchar list \<Rightarrow> (wchar list \<times> wchar list \<times> wchar list) option" where
  "unescape_spec [] = None"
| "unescape_spec (c # cs) =
     (if c = wc CHR 0x22 then Some ([], cs, [])
      else if c = wc CHR 0x5C then
        (case cs of
           [] \<Rightarrow> None
         | d # ds \<Rightarrow>
             (case unescape_spec ds of
                None \<Rightarrow> None
              | Some (out, rest, msgs) \<Rightarrow>
                  Some (escape_char d # out, rest, (if known_escape d then [] else [d]) @ msgs)))
      else
        (case unescape_spec cs of
           None \<Rightarrow> None
         | Some (out, rest, msgs) \<Rightarrow> Some (c # out, rest, msgs)))"

lemma take_strlen: "take (strlen s) s = cstr s"
  by (induction s) auto

lemma cstr_no_NUL: "0 \<notin> set (cstr s)"
  by (induction s) auto

lemma at_strlen: "at s (strlen s) = 0"
  by (induction s) (auto simp: at_def)

lemma at_append_drop: "length ou = j \<Longrightarrow> j \<le> k \<Longrightarrow> at (ou @ drop j str) k = at str k"
  by (auto simp: at_def nth_append)

lemma update_append_drop:
  "length ou = j \<Longrightarrow> j < length str \<Longrightarrow> (ou @ drop j str)[j := v] = (ou @ [v]) @ drop (Suc j) str"
  by (simp add: list_update_append Cons_nth_drop_Suc [symmetric])

lemma drop_take_Cons:
  assumes "drop i (take len str) = c # r"
  shows "i < len" "i < length str" "at str i = c" "drop (Suc i) (take len str) = r"
proof -
  from assms have "i < length (take len str)"
    by (cases "i < length (take len str)") auto
  then show "i < len" "i < length str" by simp_all
  then show "at str i = c" using assms
    by (metis \<open>i < length (take len str)\<close> at_def nth_take nth_via_drop)
  show "drop (Suc i) (take len str) = r" using assms
    by (metis drop_Suc list.sel(3) tl_drop)
qed

definition loop_fails :: "bool \<times> wstr \<times> nat \<times> nat \<times> wchar list \<Rightarrow> bool" where
  "loop_fails res = (case res of (early, b, i, j, m) \<Rightarrow> early \<or> at b i \<noteq> wc CHR 0x22)"


lemma unescape_loop_refines:
  assumes "len = strlen str" and "length ou = j" and "j \<le> i" and "i \<le> len"
    and "r = drop i (take len str)"
  shows "case unescape_spec r of
           None \<Rightarrow> loop_fails (unescape_loop (ou @ drop j str) len i j m)
         | Some (out, rest, msgs) \<Rightarrow>
             unescape_loop (ou @ drop j str) len i j m =
               (False, (ou @ out) @ drop (j + length out) str, len - Suc (length rest),
                j + length out, m @ msgs)"
  using assms
proof (induction r arbitrary: i j ou m rule: unescape_spec.induct)
  case 1
  from "1.prems" have "i = len"
    using strlen_le [of str] by simp
  with "1.prems" show ?case
    by (simp add: unescape_loop.simps loop_fails_def at_append_drop at_strlen wc_def)
next
  case (2 c cs)
  let ?buf = "ou @ drop j str"
  note dt = drop_take_Cons [OF "2.prems"(5) [symmetric]]
  have nz: "c \<noteq> 0"
  proof -
    have "c \<in> set (drop i (take len str))" using "2.prems"(5) by (metis list.set_intros(1))
    then have "c \<in> set (cstr str)" using "2.prems"(1) by (auto simp: take_strlen dest: in_set_dropD)
    with cstr_no_NUL [of str] show ?thesis by auto
  qed
  have ati: "at ?buf i = c"
    using dt(3) "2.prems"(2,3) by (simp add: at_append_drop)
  have jlt: "j < length str" using dt(2) "2.prems"(3) by simp
  have lencs: "len - Suc (length cs) = i"
    using dt(1,4) strlen_le [of str] "2.prems"(1) by (auto simp: min_def)
  show ?case
  proof (cases "c = wc CHR 0x22")
    case True
    with ati dt(1) show ?thesis
      by (subst unescape_loop.simps) (simp add: wc_def lencs)
  next
    case nq: False
    show ?thesis
    proof (cases "c = wc CHR 0x5C")
      case bs: True
      show ?thesis
      proof (cases cs)
        case Nil
        with dt(4) have "Suc i = len"
          using dt(1) strlen_le [of str] "2.prems"(1)
          by (metis Suc_leI drop_eq_Nil le_antisym length_take min.absorb2)
        then have "at ?buf (Suc i) = 0"
          using "2.prems"(1,2,3) by (simp add: at_append_drop at_strlen)
        with ati bs dt(1) Nil show ?thesis
          by (subst unescape_loop.simps) (simp add: wc_def loop_fails_def)
      next
        case (Cons d ds)
        note dt2 = drop_take_Cons [OF dt(4) [unfolded Cons]]
        have nzd: "d \<noteq> 0"
        proof -
          have "d \<in> set (drop i (take len str))" using "2.prems"(5) [symmetric] Cons by simp
          then have "d \<in> set (cstr str)" using "2.prems"(1) by (auto simp: take_strlen dest: in_set_dropD)
          with cstr_no_NUL [of str] show ?thesis by auto
        qed
        have atd: "at ?buf (Suc i) = d"
          using dt2(3) "2.prems"(2,3) by (simp add: at_append_drop)
        have upd: "?buf[j := v] = (ou @ [v]) @ drop (Suc j) str" for v
          by (rule update_append_drop [OF "2.prems"(2) jlt])
        have step: "unescape_loop ?buf len i j m =
            unescape_loop ((ou @ [escape_char d]) @ drop (Suc j) str) len (Suc (Suc i)) (Suc j)
              (m @ (if known_escape d then [] else [d]))"
          using ati atd bs dt(1) nzd
          by (subst unescape_loop.simps)
             (auto simp: wc_def upd escape_char_def known_escape_def Let_def)
        have IH: "case unescape_spec ds of
           None \<Rightarrow> loop_fails (unescape_loop ((ou @ [escape_char d]) @ drop (Suc j) str) len (Suc (Suc i)) (Suc j)
              (m @ (if known_escape d then [] else [d])))
         | Some (out, rest, msgs) \<Rightarrow>
             unescape_loop ((ou @ [escape_char d]) @ drop (Suc j) str) len (Suc (Suc i)) (Suc j)
              (m @ (if known_escape d then [] else [d])) =
               (False, ((ou @ [escape_char d]) @ out) @ drop (Suc j + length out) str, len - Suc (length rest),
                Suc j + length out, (m @ (if known_escape d then [] else [d])) @ msgs)"
          using "2.prems"(1,2,3) dt2(1,4)
          by (intro "2.IH"(1) [OF nq bs Cons]) auto
        from IH show ?thesis
          unfolding step using nq bs Cons
          by (auto split: option.splits)
      qed
    next
      case nb: False
      have upd: "?buf[j := v] = (ou @ [v]) @ drop (Suc j) str" for v
        by (rule update_append_drop [OF "2.prems"(2) jlt])
      have step: "unescape_loop ?buf len i j m =
            unescape_loop ((ou @ [c]) @ drop (Suc j) str) len (Suc i) (Suc j) m"
        using ati nq nb dt(1)
        by (subst unescape_loop.simps) (auto simp: wc_def upd)
      have IH: "case unescape_spec cs of
           None \<Rightarrow> loop_fails (unescape_loop ((ou @ [c]) @ drop (Suc j) str) len (Suc i) (Suc j) m)
         | Some (out, rest, msgs) \<Rightarrow>
             unescape_loop ((ou @ [c]) @ drop (Suc j) str) len (Suc i) (Suc j) m =
               (False, ((ou @ [c]) @ out) @ drop (Suc j + length out) str, len - Suc (length rest),
                Suc j + length out, m @ msgs)"
        using "2.prems"(1,2,3) dt(1,4)
        by (intro "2.IH"(2) [OF nq nb]) auto
      from IH show ?thesis
        unfolding step using nq nb
        by (auto split: option.splits)
    qed
  qed
qed


lemma unescape_spec_suffix:
  "unescape_spec r = Some (out, rest, msgs) \<Longrightarrow>
   \<exists>pre. r = pre @ wc CHR 0x22 # rest \<and> length out \<le> length pre"
proof (induction r arbitrary: out msgs rule: unescape_spec.induct)
  case 1
  then show ?case by simp
next
  case (2 c cs)
  show ?case
  proof (cases "c = wc CHR 0x22")
    case True
    with "2.prems" have "c # cs = [] @ wc CHR 0x22 # rest \<and> length out \<le> length ([] :: wchar list)"
      by auto
    then show ?thesis by blast
  next
    case nq: False
    show ?thesis
    proof (cases "c = wc CHR 0x5C")
      case bs: True
      with nq "2.prems" obtain d ds out' msgs' where cs: "cs = d # ds"
        and sp: "unescape_spec ds = Some (out', rest, msgs')" and out: "out = escape_char d # out'"
        by (auto split: list.splits option.splits)
      from "2.IH"(1) [OF nq bs cs sp] obtain pre where
        "ds = pre @ wc CHR 0x22 # rest" "length out' \<le> length pre"
        by blast
      then have "c # cs = (c # d # pre) @ wc CHR 0x22 # rest \<and> length out \<le> length (c # d # pre)"
        using cs out by simp
      then show ?thesis by blast
    next
      case nb: False
      with nq "2.prems" obtain out' where
        sp: "unescape_spec cs = Some (out', rest, msgs)" and out: "out = c # out'"
        by (auto split: option.splits)
      from "2.IH"(2) [OF nq nb sp] obtain pre where
        "cs = pre @ wc CHR 0x22 # rest" "length out' \<le> length pre"
        by blast
      then have "c # cs = (c # pre) @ wc CHR 0x22 # rest \<and> length out \<le> length (c # pre)"
        using out by simp
      then show ?thesis by blast
    qed
  qed
qed

lemma cstr_append_drop: "cstr s @ drop (strlen s) s = s"
  by (induction s) auto

lemma length_cstr: "length (cstr s) = strlen s"
  by (induction s) auto

lemma cstr_split: "cstr s = a \<Longrightarrow> \<exists>tl. s = a @ tl \<and> drop (strlen s) s = tl"
  using cstr_append_drop [of s] by metis


lemma unescape_string_failure:
  assumes "unescape_spec (cstr str) = None"
  shows "fst (unescape_string str) = False"
proof -
  from unescape_loop_refines [of "strlen str" str "[]" 0 0 "cstr str" "[]"] assms
  have "loop_fails (unescape_loop str (strlen str) 0 0 [])"
    by (simp add: take_strlen)
  then show ?thesis
    by (auto simp: unescape_string_def loop_fails_def split: prod.splits)
qed

lemma unescape_string_success:
  assumes spec: "unescape_spec (cstr str) = Some (out, rest, msgs)"
  shows "unescape_string str =
          (True, out @ 0 # drop (Suc (length out)) str, Some (rest @ drop (strlen str) str), msgs)"
proof -
  from unescape_spec_suffix [OF spec] obtain pre where
    pre: "cstr str = pre @ wc CHR 0x22 # rest" and lo: "length out \<le> length pre" by blast
  from cstr_split [OF pre] obtain tail where
    str: "str = (pre @ wc CHR 0x22 # rest) @ tail" and tail: "drop (strlen str) str = tail"
    by blast
  have len: "strlen str = length pre + Suc (length rest)"
    using arg_cong [OF pre, of length] by (simp add: length_cstr)
  from unescape_loop_refines [of "strlen str" str "[]" 0 0 "cstr str" "[]"] spec
  have loop0: "unescape_loop str (strlen str) 0 0 [] =
      (False, out @ drop (length out) str, strlen str - Suc (length rest), length out, msgs)"
    by (simp add: take_strlen)
  have "strlen str - Suc (length rest) = length pre"
    using len by simp
  with loop0 have loop: "unescape_loop str (strlen str) 0 0 [] =
      (False, out @ drop (length out) str, length pre, length out, msgs)"
    by simp
  have quote: "at (out @ drop (length out) str) (length pre) = wc CHR 0x22"
  proof -
    have "at (out @ drop (length out) str) (length pre) = at str (length pre)"
      using lo by (intro at_append_drop) auto
    also have "\<dots> = wc CHR 0x22"
      unfolding str by (simp add: at_def)
    finally show ?thesis .
  qed
  have olt: "length out < length str"
    using lo unfolding str by simp
  have buf: "(out @ drop (length out) str)[length out := 0] = out @ 0 # drop (Suc (length out)) str"
    using update_append_drop [where ou = out and j = "length out" and str = str and v = 0, OF refl olt]
    by simp
  have "drop (Suc (length pre)) (out @ 0 # drop (Suc (length out)) str) = drop (Suc (length pre)) str"
    using lo by (simp add: Suc_diff_le)
  also have "\<dots> = rest @ tail"
    unfolding str by simp
  finally have unparsed:
    "drop (Suc (length pre)) (out @ 0 # drop (Suc (length out)) str) = rest @ tail" .
  then have unparsed':
    "drop (length pre + 1) (out @ 0 # drop (Suc (length out)) str) = rest @ tail" by simp
  have "unescape_string str =
      (True, out @ 0 # drop (Suc (length out)) str, Some (rest @ tail), msgs)"
    by (simp only: unescape_string_def loop prod.case if_False quote buf unparsed' simp_thms)
  then show ?thesis
    by (simp add: tail)
qed

text \<open>
  Claim C5.  unescape\_string, which works in place with two indices, does what the
  specification says of the text of its argument: it fails when no unescaped double quote
  ends the text; otherwise it succeeds, the buffer holds the unescaped characters followed
  by a terminator (and is unchanged behind it), \<open>unparsed\<close> points behind the closing
  quote, and the diagnostics are those of the other escaped characters.
\<close>

theorem unescape_string_refines:
  "(case unescape_spec (cstr str) of
      None \<Rightarrow> fst (unescape_string str) = False
    | Some (out, rest, msgs) \<Rightarrow>
        unescape_string str =
          (True, out @ 0 # drop (Suc (length out)) str, Some (rest @ drop (strlen str) str), msgs))"
proof (cases "unescape_spec (cstr str)")
  case None
  with unescape_string_failure [OF None] show ?thesis by simp
next
  case (Some res)
  obtain out rest msgs where res: "res = (out, rest, msgs)" by (cases res)
  from unescape_string_success [OF Some [unfolded res]] Some res show ?thesis by simp
qed

section \<open>A NUL in a string value\<close>

lemma unescape_spec_append:
  "unescape_spec (a @ [wc CHR 0x22]) = Some (oa, [], ma) \<Longrightarrow>
   unescape_spec (a @ r) =
     (case unescape_spec r of
        None \<Rightarrow> None
      | Some (ob, rest, mb) \<Rightarrow> Some (oa @ ob, rest, ma @ mb))"
proof (induction a arbitrary: oa ma rule: unescape_spec.induct)
  case 1
  then show ?case by (auto split: option.splits)
next
  case (2 c cs)
  show ?case
  proof (cases "c = wc CHR 0x22")
    case True
    with "2.prems" show ?thesis by simp
  next
    case nq: False
    show ?thesis
    proof (cases "c = wc CHR 0x5C")
      case bs: True
      show ?thesis
      proof (cases cs)
        case Nil
        with nq bs "2.prems" show ?thesis by (simp add: wc_def)
      next
        case (Cons d ds)
        with nq bs "2.prems" obtain oa' ma' where
          sp: "unescape_spec (ds @ [wc CHR 0x22]) = Some (oa', [], ma')"
          and oa: "oa = escape_char d # oa'" and ma: "ma = (if known_escape d then [] else [d]) @ ma'"
          by (auto split: option.splits)
        from "2.IH"(1) [OF nq bs Cons sp] nq bs Cons oa ma show ?thesis
          by (auto split: option.splits)
      qed
    next
      case nb: False
      with nq "2.prems" obtain oa' where
        sp: "unescape_spec (cs @ [wc CHR 0x22]) = Some (oa', [], ma)" and oa: "oa = c # oa'"
        by (auto split: option.splits)
      from "2.IH"(2) [OF nq nb sp] nq nb oa show ?thesis
        by (auto split: option.splits)
    qed
  qed
qed

lemma strlen_append_NUL: "0 \<notin> set xs \<Longrightarrow> strlen (xs @ 0 # ys) = length xs"
  by (induction xs) auto

lemma length_wchar_bytes: "length (concat (map wchar_bytes xs)) = 2 * length xs"
  by (induction xs) (auto simp: wchar_bytes_def)

lemma cstr_append_tail:
  assumes "0 \<notin> set xs" and "deref ys = 0"
  shows "cstr (xs @ ys) = xs"
  using assms by (induction xs) (auto simp: deref_0_iff)

lemma deref_drop_strlen: "deref (drop (strlen s) s) = 0"
  by (induction s) auto



text \<open>
  Claim C10.  Let the text of a string payload be \<open>a\<close>, the escape backslash 0, and
  \<open>b\<close>, where \<open>a\<close> unescapes to \<open>oa\<close> without a NUL (the escape is the first of its
  kind), \<open>b\<close> unescapes to \<open>ob\<close> up to its closing quote, and only blanks or a comment
  follow.  Then string\_data\_state goes to SET\_VALUE with the whole of \<open>oa\<close>, NUL, \<open>ob\<close>
  in the buffer, but with a data size counted up to that first NUL, and the
  RegSetValueExW of set\_value\_state writes \<open>oa\<close> and a terminator only: every character
  behind the escape is left out of the value.
\<close>

theorem nul_escape_truncates_value:
  assumes shape: "cstr pos = a @ [wc CHR 0x5C, wc CHR ''0''] @ b"
    and pre_ok: "unescape_spec (a @ [wc CHR 0x22]) = Some (oa, [], ma)"
    and no_nul: "0 \<notin> set oa"
    and post_ok: "unescape_spec b = Some (ob, rest, mb)"
    and trail: "dropWhile is_blank rest = [] \<or> hd (dropWhile is_blank rest) = wc CHR '';''"
  shows "\<exists>ps' line.
           string_data_state e ps pos = (ps', Some line) \<and> state ps' = SET_VALUE \<and>
           data ps' = LineData ((oa @ 0 # ob) @ 0 # drop (Suc (length (oa @ 0 # ob))) pos) \<and>
           data_size ps' = 2 * (length oa + 1) \<and>
           trace (fst (set_value_state e ps' line)) =
             trace ps' @ [SetValue (hkey ps) (value_name ps) (data_type ps)
                            (concat (map wchar_bytes (oa @ [0])))]"
proof -
  define out where "out = oa @ 0 # ob"
  define buf where "buf = out @ 0 # drop (Suc (length out)) pos"
  define unparsed where "unparsed = rest @ drop (strlen pos) pos"
  define line where "line = skip_blanks unparsed"
  have "unescape_spec ([wc CHR 0x5C, wc CHR ''0''] @ b) = Some (0 # ob, rest, mb)"
    using post_ok by (simp add: wc_def escape_char_def known_escape_def)
  with unescape_spec_append [OF pre_ok, of "[wc CHR 0x5C, wc CHR ''0''] @ b"]
  have spec: "unescape_spec (cstr pos) = Some (out, rest, ma @ mb)"
    by (simp add: shape out_def)
  have us: "unescape_string pos = (True, buf, Some unparsed, ma @ mb)"
    unfolding buf_def unparsed_def by (rule unescape_string_success [OF spec])
  from unescape_spec_suffix [OF spec] obtain pre where pre: "cstr pos = pre @ wc CHR 0x22 # rest"
    by blast
  have "0 \<notin> set rest"
    using cstr_no_NUL [of pos] unfolding pre by simp
  then have cu: "cstr unparsed = rest"
    unfolding unparsed_def by (rule cstr_append_tail) (rule deref_drop_strlen)
  have cl: "cstr line = dropWhile is_blank rest"
    by (simp add: line_def skip_blanks_eq cstr_dropWhile cu)
  have semi: "wc CHR '';'' \<noteq> 0" by (simp add: wc_def)
  have ok: "\<not> (deref line \<noteq> 0 \<and> deref line \<noteq> wc CHR '';'')"
    using trail by (auto simp: deref_0_iff deref_eq_iff [OF semi] cl)
  have sl: "strlen buf = length oa"
    unfolding buf_def out_def using strlen_append_NUL [OF no_nul] by simp
  define ps' where "ps' = set_state
      ((report_escapes (ma @ mb) (ps\<lparr>data := LineData buf\<rparr>))\<lparr>data_size := (strlen buf + 1) * 2\<rparr>)
      SET_VALUE"
  have sds: "string_data_state e ps pos = (ps', Some line)"
    using ok by (auto simp: string_data_state_def us Let_def line_def ps'_def)
  have fields: "state ps' = SET_VALUE" "data ps' = LineData buf" "data_size ps' = 2 * (length oa + 1)"
    "hkey ps' = hkey ps" "value_name ps' = value_name ps" "data_type ps' = data_type ps"
    by (simp_all add: ps'_def set_state_def report_escapes_def sl)
  have "buf @ [0] = (oa @ [0]) @ (ob @ 0 # drop (Suc (length out)) pos @ [0])"
    by (simp add: buf_def out_def)
  then have "concat (map wchar_bytes (buf @ [0])) =
      concat (map wchar_bytes (oa @ [0])) @ concat (map wchar_bytes (ob @ 0 # drop (Suc (length out)) pos @ [0]))"
    by (metis concat_append map_append)
  then have bytes: "data_bytes (LineData buf) (2 * (length oa + 1)) = concat (map wchar_bytes (oa @ [0]))"
    using length_wchar_bytes [of "oa @ [0]"] by (simp add: data_bytes_def)
  have sv: "trace (fst (set_value_state e ps' line)) =
      trace ps' @ [SetValue (hkey ps) (value_name ps) (data_type ps) (concat (map wchar_bytes (oa @ [0])))]"
    unfolding set_value_state_def Let_def emit_def fields bytes
    by (simp add: free_parser_data_def set_state_def)
  from sds fields(1,2,3) sv show ?thesis
    unfolding buf_def out_def by blast
qed

theorem nul_escape_truncates_value_witness:
  "cstr (wide ''ab'' @ [0x5C, 0x30] @ wide ''cd'' @ [0x22]) =
     wide ''ab'' @ [wc CHR 0x5C, wc CHR ''0''] @ (wide ''cd'' @ [0x22]) \<and>
   unescape_spec (wide ''ab'' @ [wc CHR 0x22]) = Some (wide ''ab'', [], []) \<and>
   0 \<notin> set (wide ''ab'') \<and>
   unescape_spec (wide ''cd'' @ [0x22]) = Some (wide ''cd'', [], []) \<and>
   dropWhile is_blank ([] :: wstr) = [] \<and>
   trace (fst (set_value_state example_env
            (fst (string_data_state example_env (initial_parser example_env 82 69 [])
                    (wide ''ab'' @ [0x5C, 0x30] @ wide ''cd'' @ [0x22])))
            [])) =
     [SetValue None None 0 [0x61, 0, 0x62, 0, 0, 0]] \<and>
   data (fst (string_data_state example_env (initial_parser example_env 82 69 [])
                    (wide ''ab'' @ [0x5C, 0x30] @ wide ''cd'' @ [0x22]))) =
     LineData (wide ''ab'' @ [0] @ wide ''cd'' @ [0, 0x22])"
proof -
  have h1: "cstr (wide ''ab'' @ [0x5C, 0x30] @ wide ''cd'' @ [0x22]) =
     wide ''ab'' @ [wc CHR 0x5C, wc CHR ''0''] @ (wide ''cd'' @ [0x22])"
    by (simp add: wide_def wc_def)
  have h2: "unescape_spec (wide ''ab'' @ [wc CHR 0x22]) = Some (wide ''ab'', [], [])"
    by (simp add: wide_def wc_def)
  have h3: "0 \<notin> set (wide ''ab'')" by (simp add: wide_def wc_def)
  have h4: "unescape_spec (wide ''cd'' @ [0x22]) = Some (wide ''cd'', [], [])"
    by (simp add: wide_def wc_def)
  have h5: "dropWhile is_blank ([] :: wstr) = []" by simp
  from nul_escape_truncates_value [OF h1 h2 h3 h4 disjI1 [OF h5],
      of example_env "initial_parser example_env 82 69 []"]
  obtain ps' line where
    r: "string_data_state example_env (initial_parser example_env 82 69 [])
          (wide ''ab'' @ [0x5C, 0x30] @ wide ''cd'' @ [0x22]) = (ps', Some line)"
    and d: "data ps' = LineData ((wide ''ab'' @ 0 # wide ''cd'') @ 0 #
          drop (Suc (length (wide ''ab'' @ 0 # wide ''cd''))) (wide ''ab'' @ [0x5C, 0x30] @ wide ''cd'' @ [0x22]))"
    and t: "trace (fst (set_value_state example_env ps' line)) =
         trace ps' @ [SetValue (hkey (initial_parser example_env 82 69 []))
           (value_name (initial_parser example_env 82 69 []))
           (data_type (initial_parser example_env 82 69 []))
           (concat (map wchar_bytes (wide ''ab'' @ [0])))]"
    by blast
  have tr: "trace ps' = []" and ln: "line = []"
    using r by (auto simp: run_simps)
  from r d t tr ln h1 h2 h3 h4 h5 show ?thesis
    by (simp add: wide_def wc_def wchar_bytes_def initial_parser_def)
qed

section \<open>The line source returns the lines of the stream\<close>

text \<open>
  The logical lines of a stream of units: the text between line terminators, a terminator
  being a CR LF pair, a CR or an LF.  A stream that ends with a terminator has an empty last
  line.
\<close>

definition no_eol :: "'a::len word list \<Rightarrow> bool" where
  "no_eol l = (CR \<notin> set l \<and> LF \<notin> set l)"

fun lines_from :: "'a::len word list \<Rightarrow> 'a word list \<Rightarrow> 'a word list list" where
  "lines_from acc [] = [acc]"
| "lines_from acc [c] = (if c = CR \<or> c = LF then [acc, []] else [acc @ [c]])"
| "lines_from acc (c # d # s) =
     (if c = CR \<and> d = LF then acc # lines_from [] s
      else if c = CR \<or> c = LF then acc # lines_from [] (d # s)
      else lines_from (acc @ [c]) (d # s))"

definition logical_lines :: "'a::len word list \<Rightarrow> 'a word list list" where
  "logical_lines s = lines_from [] s"

text \<open>
  A call of the line source reads across a CR LF pair when the last unit it has taken from
  the stream is a CR and the unit that follows it in the stream is an LF.  \<open>pair_split\<close>
  tells whether some call does, from the given state of the line source to the end of the
  stream.
\<close>

definition read_ends_in_pair :: "parser \<Rightarrow> parser \<Rightarrow> bool" where
  "read_ends_in_pair ps ps' =
     (let taken = take (length (file_rest ps) - length (file_rest ps')) (file_rest ps)
      in if is_unicode ps
         then wchars_of taken \<noteq> [] \<and> last (wchars_of taken) = CR \<and>
              take 1 (wchars_of (file_rest ps')) = [LF]
         else taken \<noteq> [] \<and> last taken = CR \<and> take 1 (file_rest ps') = [LF])"

function pair_split :: "env \<Rightarrow> parser \<Rightarrow> bool" where
  "pair_split e ps =
     (case get_line e ps of
        (None, ps') \<Rightarrow> False
      | (Some line, ps') \<Rightarrow> read_ends_in_pair ps ps' \<or> pair_split e ps')"
  by pat_completeness auto
termination
  by (relation "measure (\<lambda>(e, ps). reader_measure ps)") (auto dest!: rm_get_line [OF sym])

declare pair_split.simps [simp del]

text \<open>The lines that the line source returns, call after call, until it returns NULL.\<close>

function all_lines :: "env \<Rightarrow> parser \<Rightarrow> wstr list" where
  "all_lines e ps =
     (case get_line e ps of
        (None, ps') \<Rightarrow> []
      | (Some line, ps') \<Rightarrow> line # all_lines e ps')"
  by pat_completeness auto
termination
  by (relation "measure (\<lambda>(e, ps). reader_measure ps)") (auto dest!: rm_get_line [OF sym])

declare all_lines.simps [simp del]






lemma lines_from_CRLF:
  "no_eol l \<Longrightarrow> lines_from acc (l @ CR # LF # r) = (acc @ l) # lines_from [] r"
  by (induction acc l rule: lines_from.induct) (auto simp: no_eol_def)





lemma wchars_of_take_drop: "wchars_of (take (2 * k) bs) @ wchars_of (drop (2 * k) bs) = wchars_of bs"
proof (induction k arbitrary: bs)
  case 0
  show ?case by simp
next
  case (Suc k)
  show ?case
  proof (cases bs)
    case Nil
    then show ?thesis by simp
  next
    case (Cons lo bs1)
    show ?thesis
    proof (cases bs1)
      case Nil
      with Cons show ?thesis by simp
    next
      case (Cons hi bs2)
      with \<open>bs = lo # bs1\<close> Suc.IH [of bs2] show ?thesis by simp
    qed
  qed
qed



lemma cstr_id: "0 \<notin> set s \<Longrightarrow> cstr s = s"
  by (induction s) auto







lemma get_lineA_loop_suffix:
  "get_lineA_loop sz nxt fp = (line, sz', nx', fp') \<Longrightarrow> \<exists>k. fp' = drop k fp"
proof (induction sz nxt fp rule: get_lineA_loop.induct)
  case (1 sz nxt fp)
  show ?case
  proof (cases "strpbrk nxt [CR, LF]")
    case (Some p)
    with "1.prems" have "fp' = drop 0 fp" by (simp add: get_lineA_loop.simps [of sz nxt fp])
    then show ?thesis by blast
  next
    case None
    define len where "len = strlen nxt"
    define sz2 where "sz2 = (if sz - len < 3 then sz * 2 else sz)"
    define count where "count = min (sz2 - len - 1) (length fp)"
    have unfold: "get_lineA_loop sz nxt fp =
        (if count = 0 then (take len nxt, sz2, None, fp)
         else get_lineA_loop sz2 (take len nxt @ take count fp) (drop count fp))"
      by (subst get_lineA_loop.simps) (simp only: None option.case Let_def len_def sz2_def count_def)
    show ?thesis
    proof (cases "count = 0")
      case True
      with unfold "1.prems" have "fp' = drop 0 fp" by simp
      then show ?thesis by blast
    next
      case False
      have rec: "get_lineA_loop sz2 (take len nxt @ take count fp) (drop count fp) = (line, sz', nx', fp')"
        using unfold False "1.prems" by simp
      from "1.IH" [OF None len_def sz2_def count_def False rec]
      obtain k where "fp' = drop k (drop count fp)" by blast
      then have "fp' = drop (k + count) fp" by simp
      then show ?thesis by blast
    qed
  qed
qed

lemma get_lineW_loop_suffix:
  "get_lineW_loop e sz nxt fp = (line, sz', nx', fp') \<Longrightarrow>
   \<exists>k. fp' = drop (2 * k) fp \<or> fp' = []"
proof (induction e sz nxt fp rule: get_lineW_loop.induct)
  case (1 e sz nxt fp)
  show ?case
  proof (cases "strpbrk nxt [CR, LF]")
    case (Some p)
    with "1.prems" have "fp' = drop (2 * 0) fp" by (simp add: get_lineW_loop.simps [of e sz nxt fp])
    then show ?thesis by blast
  next
    case None
    define len where "len = strlen nxt"
    define sz2 where "sz2 = (if sz - len < 3 then sz * 2 else sz)"
    define got where "got = take (2 * (sz2 - len - 1)) fp"
    define count where "count = length got div 2"
    have unfold: "get_lineW_loop e sz nxt fp =
        (if count = 0 then
           if got = [] then (take len nxt, sz2, None, fp)
           else (take len nxt @ ucast (hd got) # buffer_behind e (take len nxt), sz2, None,
                 drop (length got) fp)
         else get_lineW_loop e sz2 (take len nxt @ wchars_of got) (drop (length got) fp))"
      by (subst get_lineW_loop.simps)
        (simp only: None option.case Let_def len_def sz2_def got_def count_def)
    have all_or_even: "drop (length got) fp = [] \<or> length got = 2 * (sz2 - len - 1)"
      by (auto simp: got_def min_def)
    show ?thesis
    proof (cases "count = 0")
      case True
      show ?thesis
      proof (cases "got = []")
        case True
        with \<open>count = 0\<close> unfold "1.prems" have "fp' = drop (2 * 0) fp" by simp
        then show ?thesis by blast
      next
        case False
        with \<open>count = 0\<close> unfold "1.prems" have fp': "fp' = drop (length got) fp" by simp
        from \<open>count = 0\<close> have "length got < 2"
          unfolding count_def by (simp add: div_eq_0_iff)
        with False have "length got = 1"
          by (cases got) auto
        then have "length got \<noteq> 2 * (sz2 - len - 1)" by presburger
        with all_or_even have "drop (length got) fp = []" by simp
        with fp' show ?thesis by simp
      qed
    next
      case False
      have rec: "get_lineW_loop e sz2 (take len nxt @ wchars_of got) (drop (length got) fp) = (line, sz', nx', fp')"
        using unfold False "1.prems" by simp
      from "1.IH" [OF None len_def sz2_def got_def count_def False rec]
      obtain k where k: "fp' = drop (2 * k) (drop (length got) fp) \<or> fp' = []" by blast
      from all_or_even show ?thesis
      proof
        assume "drop (length got) fp = []"
        with k show ?thesis by simp
      next
        assume "length got = 2 * (sz2 - len - 1)"
        with k have "fp' = drop (2 * (k + (sz2 - len - 1))) fp \<or> fp' = []"
          by (simp add: algebra_simps)
        then show ?thesis by blast
      qed
    qed
  qed
qed

text \<open>A read can only end between a CR and an LF when the stream holds such a pair.\<close>

definition has_pair :: "'a::len word list \<Rightarrow> bool" where
  "has_pair s = (\<exists>a b. s = a @ CR # LF # b)"

lemma ends_in_pair:
  assumes "xs \<noteq> []" and "last xs = CR" and "take 1 ys = [LF]"
  shows "has_pair (xs @ ys)"
proof -
  from assms(1,2) have "xs = butlast xs @ [CR]" by (metis append_butlast_last_id)
  moreover from assms(3) obtain ys' where "ys = LF # ys'" by (cases ys) auto
  ultimately have "xs @ ys = butlast xs @ CR # LF # ys'" by (metis append.assoc append_Cons append_Nil)
  then show ?thesis unfolding has_pair_def by blast
qed

lemma has_pair_append: "has_pair ys \<Longrightarrow> has_pair (xs @ ys)"
  unfolding has_pair_def by (metis append.assoc)

lemma pair_split_narrow:
  "pair_split e ps \<Longrightarrow> \<not> is_unicode ps \<Longrightarrow> has_pair (file_rest ps)"
proof (induction e ps rule: pair_split.induct)
  case (1 e ps)
  from "1.prems"(1) obtain line ps' where gl: "get_line e ps = (Some line, ps')"
    and or: "read_ends_in_pair ps ps' \<or> pair_split e ps'"
    by (auto simp: pair_split.simps [of e ps] split: prod.splits option.splits)
  define ps1 where "ps1 = (if sizeA ps = 0 then ps\<lparr>sizeA := REG_VAL_BUF_SIZE, nextA := Some []\<rparr> else ps)"
  from gl "1.prems"(2) obtain nxt l sz' nx' fp' where
    loop: "get_lineA_loop (sizeA ps1) nxt (file_rest ps) = (l, sz', nx', fp')" and
    ps': "ps' = ps1\<lparr>sizeA := sz', nextA := nx', file_rest := fp'\<rparr>"
    by (auto simp: get_line_def get_lineA_def Let_def ps1_def split: option.splits prod.splits if_splits)
  from get_lineA_loop_suffix [OF loop] obtain k where k: "fp' = drop k (file_rest ps)" by blast
  have fr: "file_rest ps' = fp'" and nu: "\<not> is_unicode ps'"
    using "1.prems"(2) by (simp_all add: ps' ps1_def)
  have cat: "file_rest ps = take (length (file_rest ps) - length fp') (file_rest ps) @ fp'"
    unfolding k by (cases "k \<le> length (file_rest ps)") simp_all
  from or show ?case
  proof
    assume "read_ends_in_pair ps ps'"
    with "1.prems"(2) have "take (length (file_rest ps) - length fp') (file_rest ps) \<noteq> []"
      "last (take (length (file_rest ps) - length fp') (file_rest ps)) = CR" "take 1 fp' = [LF]"
      by (simp_all add: read_ends_in_pair_def Let_def fr)
    from ends_in_pair [OF this] cat show ?thesis by simp
  next
    assume "pair_split e ps'"
    from "1.IH" [OF gl [symmetric] refl this nu] have "has_pair fp'" by (simp add: fr)
    from has_pair_append [OF this] cat show ?thesis by metis
  qed
qed

lemma pair_split_wide:
  "pair_split e ps \<Longrightarrow> is_unicode ps \<Longrightarrow> has_pair (wchars_of (file_rest ps))"
proof (induction e ps rule: pair_split.induct)
  case (1 e ps)
  from "1.prems"(1) obtain line ps' where gl: "get_line e ps = (Some line, ps')"
    and or: "read_ends_in_pair ps ps' \<or> pair_split e ps'"
    by (auto simp: pair_split.simps [of e ps] split: prod.splits option.splits)
  define ps1 where "ps1 = (if sizeW ps = 0 then ps\<lparr>sizeW := REG_VAL_BUF_SIZE, nextW := Some []\<rparr> else ps)"
  from gl "1.prems"(2) obtain nxt l sz' nx' fp' where
    loop: "get_lineW_loop e (sizeW ps1) nxt (file_rest ps) = (l, sz', nx', fp')" and
    ps': "ps' = ps1\<lparr>sizeW := sz', nextW := nx', file_rest := fp'\<rparr>"
    by (auto simp: get_line_def get_lineW_def Let_def ps1_def split: option.splits prod.splits if_splits)
  have fr: "file_rest ps' = fp'" and u: "is_unicode ps'"
    using "1.prems"(2) by (simp_all add: ps' ps1_def)
  have empty: "\<not> has_pair (wchars_of [])" by (simp add: has_pair_def)
  have no_read: "\<not> read_ends_in_pair ps ps'" if "fp' = []"
    using that "1.prems"(2) by (simp add: read_ends_in_pair_def Let_def fr)
  from get_lineW_loop_suffix [OF loop] obtain k where k: "fp' = drop (2 * k) (file_rest ps) \<or> fp' = []"
    by blast
  show ?case
  proof (cases "fp' = []")
    case True
    with or no_read have "pair_split e ps'" by simp
    from "1.IH" [OF gl [symmetric] refl this u] True empty show ?thesis by (simp add: fr)
  next
    case False
    with k have k': "fp' = drop (2 * k) (file_rest ps)" by simp
    with False have kl: "2 * k < length (file_rest ps)" by simp
    then have tk: "take (length (file_rest ps) - length fp') (file_rest ps) = take (2 * k) (file_rest ps)"
      by (simp add: k')
    have cat: "wchars_of (file_rest ps) = wchars_of (take (2 * k) (file_rest ps)) @ wchars_of fp'"
      unfolding k' by (rule wchars_of_take_drop [symmetric])
    from or show ?thesis
    proof
      assume "read_ends_in_pair ps ps'"
      with "1.prems"(2) have "wchars_of (take (2 * k) (file_rest ps)) \<noteq> []"
        "last (wchars_of (take (2 * k) (file_rest ps))) = CR" "take 1 (wchars_of fp') = [LF]"
        unfolding read_ends_in_pair_def Let_def fr tk by simp_all
      from ends_in_pair [OF this] cat show ?thesis by simp
    next
      assume "pair_split e ps'"
      from "1.IH" [OF gl [symmetric] refl this u] have "has_pair (wchars_of fp')" by (simp add: fr)
      from has_pair_append [OF this] cat show ?thesis by metis
    qed
  qed
qed

text \<open>Reads of streams with a line of 20000 bytes and with 4094 bytes before a CR LF pair.\<close>

lemma strpbrk_replicate:
  "a \<noteq> 0 \<Longrightarrow> a \<notin> set acc \<Longrightarrow>
   strpbrk (replicate n a @ ys) acc = map_option (\<lambda>p. n + p) (strpbrk ys acc)"
  by (induction n) (cases "strpbrk ys acc"; simp)+









lemma first_read:
  "get_lineA_loop 4096 [] (replicate 4094 97 @ [13, 10, 98]) = (replicate 4094 97, 4096, Some [], [10, 98])"
proof -
  have s1: "get_lineA_loop 4096 [] (replicate 4094 97 @ [13, 10, 98]) =
      get_lineA_loop 4096 (replicate 4094 97 @ [13]) [10, 98]"
    by (subst get_lineA_loop.simps) (simp add: Let_def)
  have p: "strpbrk (replicate 4094 (97 :: byte) @ [13]) [13, 10] = Some 4094"
    by (simp add: strpbrk_replicate)
  have s2: "get_lineA_loop 4096 (replicate 4094 97 @ [13]) [10, 98] =
      (replicate 4094 97, 4096, Some [], [10, 98])"
    by (subst get_lineA_loop.simps) (simp add: p at_def nth_append CR_def LF_def)
  show ?thesis by (simp only: s1 s2)
qed

lemma second_read: "get_lineA_loop 4096 [] [10, 98] = ([], 4096, Some [98], [])"
  by (simp add: get_lineA_loop.simps Let_def CR_def LF_def at_def)

lemma third_read: "get_lineA_loop 4096 [98] [] = ([98], 4096, None, [])"
  by (simp add: get_lineA_loop.simps Let_def CR_def LF_def at_def)







text \<open>
  A read that ends between a CR and its LF: with 4094 bytes before the pair, the first read
  of 4095 bytes ends on the CR, and an empty line is returned between the two lines of the
  stream.
\<close>

lemma crlf_split_by_a_read:
  "all_lines example_env (initial_parser example_env 82 69 (replicate 4094 97 @ [13, 10, 98])) =
     [replicate 4094 97, [], [98]] \<and>
   logical_lines (replicate 4094 (97 :: byte) @ [13, 10, 98]) = [replicate 4094 97, [98]] \<and>
   pair_split example_env (initial_parser example_env 82 69 (replicate 4094 97 @ [13, 10, 98]))"
proof -
  have c: "cstr (replicate 4094 (97 :: byte)) = replicate 4094 97"
    by (rule cstr_id) simp
  have "no_eol (replicate 4094 (97 :: byte))" by (simp add: no_eol_def CR_def LF_def)
  from lines_from_CRLF [OF this, of "[]" "[98]"]
  have l: "logical_lines (replicate 4094 (97 :: byte) @ [13, 10, 98]) = [replicate 4094 97, [98]]"
    by (simp add: logical_lines_def CR_def LF_def)
  have a: "all_lines example_env (initial_parser example_env 82 69 (replicate 4094 97 @ [13, 10, 98])) =
     [replicate 4094 97, [], [98]]"
    by (simp add: all_lines.simps get_line_def get_lineA_def initial_parser_def REG_VAL_BUF_SIZE_def
        first_read second_read third_read GetWideString_def example_env_def c)
  have s: "pair_split example_env (initial_parser example_env 82 69 (replicate 4094 97 @ [13, 10, 98]))"
    by (subst pair_split.simps)
      (simp add: get_line_def get_lineA_def initial_parser_def REG_VAL_BUF_SIZE_def
        first_read GetWideString_def example_env_def c read_ends_in_pair_def CR_def LF_def)
  from a l s show ?thesis by simp
qed

end
